theory Spec2Isabelle
  imports Main
begin

section \<open>Inference core of axiolotl: data model\<close>

text \<open>
  Source: \<^verbatim>\<open>src/public/lib/axiolotl-inference.js\<close> and the helpers it calls in
  \<^verbatim>\<open>src/public/lib/comunica-indexeddb-bridge.js\<close>.

  An RDF term, as both RDF libraries of the source represent it: a named node carries
  its IRI, a blank node its label, a literal its lexical value, its language tag (empty
  when it has none) and the IRI of its datatype.
\<close>

datatype node =
    NamedNode string
  | BlankNode string
  | Literal string string string

text \<open>The \<^verbatim>\<open>.value\<close> and \<^verbatim>\<open>.termType\<close> fields of a term.\<close>

fun node_value :: "node \<Rightarrow> string" where
  "node_value (NamedNode v) = v"
| "node_value (BlankNode b) = b"
| "node_value (Literal v l d) = v"

fun termType :: "node \<Rightarrow> string" where
  "termType (NamedNode v) = ''NamedNode''"
| "termType (BlankNode b) = ''BlankNode''"
| "termType (Literal v l d) = ''Literal''"

text \<open>
  A statement of the rdflib graph (\<^verbatim>\<open>baseGraph.statements\<close>, \<^verbatim>\<open>$rdf.st\<close>). The
  predicate is always built with \<^verbatim>\<open>$rdf.sym\<close>, so it is kept as its IRI; \<open>why\<close> is the
  context (named graph), \<open>None\<close> for the default graph.
\<close>

record statement =
  subject :: node
  predicate :: string
  object :: node
  why :: "string option"

text \<open>\<^verbatim>\<open>$rdf.st(s, $rdf.sym(p), o)\<close>: a statement of the default graph.\<close>

definition st :: "node \<Rightarrow> string \<Rightarrow> node \<Rightarrow> statement" where
  "st s p ob = \<lparr>subject = s, predicate = p, object = ob, why = None\<rparr>"

text \<open>A quad of the RDF/JS stores (\<^verbatim>\<open>rdfjsStore\<close>, \<^verbatim>\<open>overlayStore\<close>).\<close>

record quad =
  q_subject :: node
  q_predicate :: string
  q_object :: node
  q_graph :: "string option"

subsection \<open>Vocabulary\<close>

definition RDFS_SC :: string where
  "RDFS_SC = ''http://www.w3.org/2000/01/rdf-schema#subClassOf''"

definition RDFS_SP :: string where
  "RDFS_SP = ''http://www.w3.org/2000/01/rdf-schema#subPropertyOf''"

definition OWL_INV :: string where
  "OWL_INV = ''http://www.w3.org/2002/07/owl#inverseOf''"

definition OWL_SYM :: string where
  "OWL_SYM = ''http://www.w3.org/2002/07/owl#SymmetricProperty''"

definition OWL_TRANS :: string where
  "OWL_TRANS = ''http://www.w3.org/2002/07/owl#TransitiveProperty''"

definition RDFS_DOMAIN :: string where
  "RDFS_DOMAIN = ''http://www.w3.org/2000/01/rdf-schema#domain''"

definition RDFS_RANGE :: string where
  "RDFS_RANGE = ''http://www.w3.org/2000/01/rdf-schema#range''"

definition RDF_TYPE :: string where
  "RDF_TYPE = ''http://www.w3.org/1999/02/22-rdf-syntax-ns#type''"

definition XSD_STRING :: string where
  "XSD_STRING = ''http://www.w3.org/2001/XMLSchema#string''"

definition RDF_LANGSTRING :: string where
  "RDF_LANGSTRING = ''http://www.w3.org/1999/02/22-rdf-syntax-ns#langString''"

subsection \<open>JavaScript \<^verbatim>\<open>Set\<close> and \<^verbatim>\<open>Map\<close>, in insertion order\<close>

text \<open>
  A \<^verbatim>\<open>Set\<close> is a list in insertion order: \<^verbatim>\<open>add\<close> appends a value that is not
  a member. A \<^verbatim>\<open>Map\<close> from keys to sets is an association list in insertion order.
\<close>

definition set_add :: "'a list \<Rightarrow> 'a \<Rightarrow> 'a list" where
  "set_add xs x = (if x \<in> set xs then xs else xs @ [x])"

definition map_has :: "('k \<times> 'v) list \<Rightarrow> 'k \<Rightarrow> bool" where
  "map_has M k = (map_of M k \<noteq> None)"

text \<open>\<^verbatim>\<open>M.get(k)\<close> read as a list: the empty list stands for \<^verbatim>\<open>undefined\<close> where the
  source only iterates the result behind an \<^verbatim>\<open>if\<close>.\<close>

definition map_get :: "('k \<times> 'v list) list \<Rightarrow> 'k \<Rightarrow> 'v list" where
  "map_get M k = (case map_of M k of None \<Rightarrow> [] | Some vs \<Rightarrow> vs)"

text \<open>\<^verbatim>\<open>if (!M.has(a)) M.set(a, new Set())\<close>\<close>

definition map_ensure :: "('k \<times> 'v list) list \<Rightarrow> 'k \<Rightarrow> ('k \<times> 'v list) list" where
  "map_ensure M a = (if map_has M a then M else M @ [(a, [])])"

text \<open>\<^verbatim>\<open>M.get(a).add(b)\<close>, for a key that is present (every entry of that key is
  the same \<^verbatim>\<open>Set\<close> object; a map holds one).\<close>

fun map_get_add :: "('k \<times> 'v list) list \<Rightarrow> 'k \<Rightarrow> 'v \<Rightarrow> ('k \<times> 'v list) list" where
  "map_get_add [] a b = []"
| "map_get_add ((k, vs) # M) a b =
     (if k = a then (k, set_add vs b) # M else (k, vs) # map_get_add M a b)"

subsection \<open>The RDF/JS store\<close>

text \<open>
  The store keeps each quad once; \<^verbatim>\<open>getQuads\<close> with \<^verbatim>\<open>null\<close> for a wildcard returns
  the quads that match the given subject, predicate and object. The model lists the
  store in insertion order.
\<close>

definition addQuad :: "quad list \<Rightarrow> quad \<Rightarrow> quad list" where
  "addQuad store q = (if q \<in> set store then store else store @ [q])"

definition getQuads :: "quad list \<Rightarrow> node option \<Rightarrow> string option \<Rightarrow> node option \<Rightarrow> quad list" where
  "getQuads store s p ob =
     filter (\<lambda>q. (case s of None \<Rightarrow> True | Some x \<Rightarrow> q_subject q = x)
               \<and> (case p of None \<Rightarrow> True | Some x \<Rightarrow> q_predicate q = x)
               \<and> (case ob of None \<Rightarrow> True | Some x \<Rightarrow> q_object q = x)) store"

section \<open>Hierarchy closure builder\<close>

text \<open>
  \<^verbatim>\<open>mapFromQuads(store, predIRI)\<close>: the adjacency map of one predicate, from the
  \<^verbatim>\<open>.value\<close> of each subject to the set of the \<^verbatim>\<open>.value\<close>s of its objects.
\<close>

definition mapFromQuads_step :: "(string \<times> string list) list \<Rightarrow> quad \<Rightarrow> (string \<times> string list) list" where
  "mapFromQuads_step M q =
     (let a = node_value (q_subject q); b = node_value (q_object q)
      in map_get_add (map_ensure M a) a b)"

definition mapFromQuads :: "quad list \<Rightarrow> string \<Rightarrow> (string \<times> string list) list" where
  "mapFromQuads store predIRI =
     foldl mapFromQuads_step [] (getQuads store None (Some predIRI) None)"

text \<open>
  The inner \<^verbatim>\<open>while (stack.length)\<close> loop of \<^verbatim>\<open>transitiveClosure\<close>. The head of
  the list is the top of the stack (\<^verbatim>\<open>pop\<close> takes the last element of the array, and
  \<^verbatim>\<open>pp.forEach(x => stack.push(x))\<close> leaves the last parent on top).
\<close>

function closure_loop :: "('a \<times> 'a list) list \<Rightarrow> 'a list \<Rightarrow> 'a list \<Rightarrow> 'a list" where
  "closure_loop edges [] seenLocal = seenLocal"
| "closure_loop edges (p # stack) seenLocal =
     (if p \<in> set seenLocal then closure_loop edges stack seenLocal
      else closure_loop edges
             ((case map_of edges p of None \<Rightarrow> [] | Some pp \<Rightarrow> rev pp) @ stack)
             (seenLocal @ [p]))"
  by pat_completeness auto

definition edge_values :: "('a \<times> 'a list) list \<Rightarrow> 'a set" where
  "edge_values edges = (\<Union>(k, vs) \<in> set edges. set vs)"

lemma map_of_edge_values:
  "map_of edges p = Some pp \<Longrightarrow> set pp \<subseteq> edge_values edges"
  by (auto simp: edge_values_def dest: map_of_SomeD)

lemma finite_edge_values: "finite (edge_values edges)"
  by (auto simp: edge_values_def)

termination closure_loop
proof (relation "measures
    [\<lambda>(edges, stack, seenLocal). card ((edge_values edges \<union> set stack) - set seenLocal),
     \<lambda>(edges, stack, seenLocal). length stack]")
  show "wf (measures
    [\<lambda>(edges :: ('a \<times> 'a list) list, stack, seenLocal).
        card ((edge_values edges \<union> set stack) - set seenLocal),
     \<lambda>(edges, stack, seenLocal). length stack])"
    by simp
next
  fix edges :: "('a \<times> 'a list) list" and p :: 'a and stack seenLocal :: "'a list"
  assume "p \<in> set seenLocal"
  have fin: "finite ((edge_values edges \<union> set (p # stack)) - set seenLocal)"
    by (simp add: finite_edge_values)
  have "(edge_values edges \<union> set stack) - set seenLocal
        \<subseteq> (edge_values edges \<union> set (p # stack)) - set seenLocal"
    by auto
  then have "card ((edge_values edges \<union> set stack) - set seenLocal)
        \<le> card ((edge_values edges \<union> set (p # stack)) - set seenLocal)"
    using fin by (rule card_mono[rotated])
  then show "((edges, stack, seenLocal), (edges, p # stack, seenLocal))
      \<in> measures
          [\<lambda>(edges, stack, seenLocal). card ((edge_values edges \<union> set stack) - set seenLocal),
           \<lambda>(edges, stack, seenLocal). length stack]"
    by auto
next
  fix edges :: "('a \<times> 'a list) list" and p :: 'a and stack seenLocal :: "'a list"
  assume notin: "p \<notin> set seenLocal"
  let ?push = "(case map_of edges p of None \<Rightarrow> [] | Some pp \<Rightarrow> rev pp)"
  have fin: "finite ((edge_values edges \<union> set (p # stack)) - set seenLocal)"
    by (simp add: finite_edge_values)
  have push: "set ?push \<subseteq> edge_values edges"
    by (cases "map_of edges p") (auto dest: map_of_edge_values)
  have "(edge_values edges \<union> set (?push @ stack)) - set (seenLocal @ [p])
        \<subset> (edge_values edges \<union> set (p # stack)) - set seenLocal"
    using push notin by auto
  then have "card ((edge_values edges \<union> set (?push @ stack)) - set (seenLocal @ [p]))
        < card ((edge_values edges \<union> set (p # stack)) - set seenLocal)"
    using fin by (rule psubset_card_mono[rotated])
  then show "((edges, ?push @ stack, seenLocal @ [p]), (edges, p # stack, seenLocal))
      \<in> measures
          [\<lambda>(edges, stack, seenLocal). card ((edge_values edges \<union> set stack) - set seenLocal),
           \<lambda>(edges, stack, seenLocal). length stack]"
    by auto
qed

text \<open>
  \<^verbatim>\<open>transitiveClosure(edges)\<close>: for each entry of the edge map in turn, the locally
  seen set of a depth-first walk from its direct parents, stored under the child.
\<close>

definition map_set :: "('k \<times> 'v) list \<Rightarrow> 'k \<Rightarrow> 'v \<Rightarrow> ('k \<times> 'v) list" where
  "map_set M k v =
     (if map_has M k then map (\<lambda>(k', v'). if k' = k then (k', v) else (k', v')) M
      else M @ [(k, v)])"

definition transitiveClosure :: "('a \<times> 'a list) list \<Rightarrow> ('a \<times> 'a list) list" where
  "transitiveClosure edges =
     foldl (\<lambda>closure (child, parents).
              map_set closure child (closure_loop edges (rev parents) []))
           [] edges"


section \<open>Term-kind detection and conversion helpers\<close>

text \<open>
  Strings are modelled as lists of ASCII characters; \<^verbatim>\<open>\s\<close> and \<^verbatim>\<open>trim\<close> see the six
  ASCII white-space characters.
\<close>

definition is_space :: "char \<Rightarrow> bool" where
  "is_space c = (c \<in> set [CHR 0x09, CHR 0x0A, CHR 0x0B, CHR 0x0C, CHR 0x0D, CHR 0x20])"

text \<open>A character of the input against a lower-case letter of a pattern under the
  \<^verbatim>\<open>i\<close> flag.\<close>

definition ci_eq :: "char \<Rightarrow> char \<Rightarrow> bool" where
  "ci_eq c p = (c = p \<or> (65 \<le> (of_char c :: nat) \<and> (of_char c :: nat) \<le> 90
                          \<and> (of_char p :: nat) = of_char c + 32))"

fun starts_with_ci :: "string \<Rightarrow> string \<Rightarrow> bool" where
  "starts_with_ci [] s = True"
| "starts_with_ci (p # ps) [] = False"
| "starts_with_ci (p # ps) (c # cs) = (ci_eq c p \<and> starts_with_ci ps cs)"

definition startsWith :: "string \<Rightarrow> string \<Rightarrow> bool" where
  "startsWith s pre = (take (length pre) s = pre)"

text \<open>\<^verbatim>\<open>isAbsoluteIri(s)\<close>\<close>

definition isAbsoluteIri :: "string \<Rightarrow> bool" where
  "isAbsoluteIri s =
     (if s = [] then False
      else if \<exists>c \<in> set s. is_space c then False
      else if \<exists>pre \<in> set [''http://'', ''https://'', ''ws://'', ''wss://'', ''ftp://'', ''file://''].
                starts_with_ci pre s then True
      else if \<exists>pre \<in> set [''urn:'', ''tag:'', ''mailto:'', ''data:'', ''ipfs:'', ''ipns:''].
                starts_with_ci pre s then True
      else False)"

definition is_digit :: "char \<Rightarrow> bool" where
  "is_digit c = (48 \<le> (of_char c :: nat) \<and> (of_char c :: nat) \<le> 57)"

definition is_alpha :: "char \<Rightarrow> bool" where
  "is_alpha c = ((65 \<le> (of_char c :: nat) \<and> (of_char c :: nat) \<le> 90)
               \<or> (97 \<le> (of_char c :: nat) \<and> (of_char c :: nat) \<le> 122))"

text \<open>\<^verbatim>\<open>looksLikeBnodeId(v)\<close>\<close>

definition looksLikeBnodeId :: "string \<Rightarrow> bool" where
  "looksLikeBnodeId v =
     (startsWith v ''_:'' \<or> startsWith v ''_g_''
      \<or> (case v of [] \<Rightarrow> False | c # ds \<Rightarrow> is_alpha c \<and> ds \<noteq> [] \<and> (\<forall>d \<in> set ds. is_digit d)))"

definition trim :: "string \<Rightarrow> string" where
  "trim s = rev (dropWhile is_space (rev (dropWhile is_space s)))"

text \<open>\<^verbatim>\<open>normalizeIriString(s)\<close>\<close>

definition normalizeIriString :: "string \<Rightarrow> string" where
  "normalizeIriString s =
     (let t = trim s
      in if length t \<ge> 2 \<and> hd t = CHR ''<'' \<and> last t = CHR ''>''
         then trim (butlast (tl t)) else t)"

text \<open>\<^verbatim>\<open>String(v).replace(/^_:/, '').replace(/^_g_/, '')\<close>\<close>

definition strip_bnode_prefix :: "string \<Rightarrow> string" where
  "strip_bnode_prefix v =
     (let a = (if startsWith v ''_:'' then drop 2 v else v)
      in if startsWith a ''_g_'' then drop 3 a else a)"

datatype error = PredicateNotAbsolute string | InvalidIri string | EvaluatorError string

text \<open>
  \<^verbatim>\<open>$rdf.sym(v)\<close>, the named-node constructor of the RDF library. The library is not
  part of the repository's sources; its constructor throws for an empty value, for a
  value without a colon (\<^verbatim>\<open>NamedNode IRI "..." must be absolute\<close>) and for a value with
  a space, and the model has exactly these three rejections.
\<close>

definition sym :: "string \<Rightarrow> error + node" where
  "sym v = (if v = [] \<or> CHR '':'' \<notin> set v \<or> CHR '' '' \<in> set v
            then Inl (InvalidIri v) else Inr (NamedNode v))"

text \<open>\<^verbatim>\<open>toLowerCase\<close> on ASCII letters: the store's \<^verbatim>\<open>literal(value, language)\<close>
  lower-cases the language tag.\<close>

definition to_lower :: "char \<Rightarrow> char" where
  "to_lower c =
     (case map_of (zip ''ABCDEFGHIJKLMNOPQRSTUVWXYZ'' ''abcdefghijklmnopqrstuvwxyz'') c of
        None \<Rightarrow> c | Some d \<Rightarrow> d)"

definition toLowerCase :: "string \<Rightarrow> string" where
  "toLowerCase s = map to_lower s"

text \<open>
  A loop that pushes what its body yields for each element onto \<^verbatim>\<open>out\<close>, where the body
  may throw: the first throw ends the loop. \<open>both\<close> is two such steps in sequence.
\<close>

fun collect :: "('a \<Rightarrow> error + 'b list) \<Rightarrow> 'a list \<Rightarrow> error + 'b list" where
  "collect f [] = Inr []"
| "collect f (x # xs) =
     (case f x of
        Inl e \<Rightarrow> Inl e
      | Inr ys \<Rightarrow> (case collect f xs of Inl e \<Rightarrow> Inl e | Inr zs \<Rightarrow> Inr (ys @ zs)))"

definition both :: "error + 'b list \<Rightarrow> error + 'b list \<Rightarrow> error + 'b list" where
  "both a b =
     (case a of
        Inl e \<Rightarrow> Inl e
      | Inr xs \<Rightarrow> (case b of Inl e \<Rightarrow> Inl e | Inr ys \<Rightarrow> Inr (xs @ ys)))"

text \<open>A loop that converts each element in turn, where the conversion may throw.\<close>

definition each :: "('a \<Rightarrow> error + 'b) \<Rightarrow> 'a list \<Rightarrow> error + 'b list" where
  "each f xs = collect (\<lambda>x. case f x of Inl e \<Rightarrow> Inl e | Inr y \<Rightarrow> Inr [y]) xs"

text \<open>\<^verbatim>\<open>asRdfjsSubject\<close>, \<^verbatim>\<open>asRdfjsPredicate\<close> (which throws), \<^verbatim>\<open>asRdfjsObject\<close>. The
  language and the datatype arguments are \<open>None\<close> for \<^verbatim>\<open>undefined\<close>. The store's
  \<^verbatim>\<open>literal(value, language)\<close> lower-cases the tag. The library's \<^verbatim>\<open>blankNode\<close> is given a
  non-empty label in every run the model covers (for an empty one it invents a fresh
  label).\<close>

definition asRdfjsSubject :: "string \<Rightarrow> string \<Rightarrow> node" where
  "asRdfjsSubject v type =
     (let iri = normalizeIriString v
      in if type = ''NamedNode'' \<and> isAbsoluteIri iri then NamedNode iri
         else if isAbsoluteIri iri then NamedNode iri
         else BlankNode (strip_bnode_prefix v))"

definition asRdfjsPredicate :: "string \<Rightarrow> string \<Rightarrow> error + string" where
  "asRdfjsPredicate v type =
     (let iri = normalizeIriString v
      in if type = ''NamedNode'' \<and> isAbsoluteIri iri then Inr iri
         else if isAbsoluteIri iri then Inr iri
         else Inl (PredicateNotAbsolute v))"

definition truthy :: "string option \<Rightarrow> bool" where
  "truthy x = (case x of None \<Rightarrow> False | Some v \<Rightarrow> v \<noteq> [])"

definition asRdfjsObject :: "string \<Rightarrow> string \<Rightarrow> string option \<Rightarrow> string option \<Rightarrow> node" where
  "asRdfjsObject v type lang datatype =
     (let iri = normalizeIriString v
      in if type = ''NamedNode'' \<and> isAbsoluteIri iri then NamedNode iri
         else if type = ''BlankNode'' \<or> looksLikeBnodeId v then BlankNode (strip_bnode_prefix v)
         else if truthy lang then Literal v (toLowerCase (the lang)) RDF_LANGSTRING
         else if truthy datatype then Literal v [] (normalizeIriString (the datatype))
         else if isAbsoluteIri iri then NamedNode iri
         else Literal v [] XSD_STRING)"

text \<open>The language and datatype a caller reads off an rdflib term:
  \<^verbatim>\<open>(o.lang || o.language) || undefined\<close> and
  \<^verbatim>\<open>o.datatype ? o.datatype.value : undefined\<close>.\<close>

fun node_lang :: "node \<Rightarrow> string option" where
  "node_lang (Literal v l d) = (if l = [] then None else Some l)"
| "node_lang _ = None"

fun node_datatype :: "node \<Rightarrow> string option" where
  "node_datatype (Literal v l d) = Some d"
| "node_datatype _ = None"

text \<open>The converters local to \<^verbatim>\<open>inferUntilStable\<close>: \<^verbatim>\<open>toSubject\<close> and \<^verbatim>\<open>toObject\<close>,
  from a term of the graph to a term of the store.\<close>

fun toSubject :: "node \<Rightarrow> node" where
  "toSubject (NamedNode v) = NamedNode v"
| "toSubject s = BlankNode (node_value s)"

fun toObject :: "node \<Rightarrow> node" where
  "toObject (NamedNode v) = NamedNode v"
| "toObject (BlankNode b) = BlankNode b"
| "toObject (Literal v l d) =
     (if l \<noteq> [] then Literal v (toLowerCase l) RDF_LANGSTRING else Literal v [] d)"

section \<open>The rdflib graph and the statement key\<close>

text \<open>\<^verbatim>\<open>graph.add(s, p, o, g)\<close> keeps a statement the graph already holds once.\<close>

definition graph_add :: "statement list \<Rightarrow> statement \<Rightarrow> statement list" where
  "graph_add g s = (if s \<in> set g then g else g @ [s])"

text \<open>
  Modelled from the spec: the statement key \<^verbatim>\<open>s.toNT()\<close> is a method of the RDF library,
  which is not part of the repository's sources. The spec has it as "a canonical string
  derived deterministically from (subject, predicate, object)", "regardless of context";
  the model is the N-Triples line of the three terms.
\<close>

definition nt_escape :: "string \<Rightarrow> string" where
  "nt_escape v = concat (map (\<lambda>c.
       if c = CHR 0x5C then [CHR 0x5C, CHR 0x5C]
       else if c = CHR 0x22 then [CHR 0x5C, CHR 0x22]
       else if c = CHR 0x0A then [CHR 0x5C, CHR ''n'']
       else if c = CHR 0x0D then [CHR 0x5C, CHR ''r'']
       else [c]) v)"

fun node_toNT :: "node \<Rightarrow> string" where
  "node_toNT (NamedNode v) = ''<'' @ v @ ''>''"
| "node_toNT (BlankNode b) = ''_:'' @ b"
| "node_toNT (Literal v l d) =
     [CHR 0x22] @ nt_escape v @ [CHR 0x22] @
     (if l \<noteq> [] then ''@'' @ l
      else if d \<noteq> XSD_STRING then ''^^<'' @ d @ ''>''
      else [])"

definition toNT :: "statement \<Rightarrow> string" where
  "toNT s = node_toNT (subject s) @ '' '' @ ''<'' @ predicate s @ ''>'' @ '' ''
            @ node_toNT (object s) @ '' .''"

section \<open>Run state and frozen indices\<close>

record run_state =
  baseGraph :: "statement list"
  seen :: "string list"
  overlayStore :: "quad list"
  rdfjsStore :: "quad list"
  workTypes :: "statement list"
  workProps :: "statement list"

record indices =
  classSupers :: "(string \<times> string list) list"
  propSupers :: "(string \<times> string list) list"
  domainMap :: "(string \<times> string list) list"
  rangeMap :: "(string \<times> string list) list"
  symmetricProps :: "string list"
  transitiveProps :: "string list"
  inversePairs :: "(string \<times> string list) list"

text \<open>\<^verbatim>\<open>formulaToRdfjsStore(graph)\<close>\<close>

fun formula_object :: "node \<Rightarrow> node" where
  "formula_object (NamedNode v) = NamedNode v"
| "formula_object (BlankNode b) = BlankNode (if b = [] then ''o'' else b)"
| "formula_object (Literal v l d) =
     (if l \<noteq> [] then Literal v (toLowerCase l) RDF_LANGSTRING else Literal v [] d)"

definition formula_quad :: "statement \<Rightarrow> quad" where
  "formula_quad s =
     \<lparr>q_subject = toSubject (subject s), q_predicate = predicate s,
      q_object = formula_object (object s),
      q_graph = (if truthy (why s) then why s else None)\<rparr>"

definition formulaToRdfjsStore :: "statement list \<Rightarrow> quad list" where
  "formulaToRdfjsStore graph = foldl addQuad [] (map formula_quad graph)"

text \<open>The two passes that make \<^verbatim>\<open>inversePairs\<close> two-way (the source runs the same
  loop twice).\<close>

definition inverse_step :: "(string \<times> string list) list \<Rightarrow> quad \<Rightarrow> (string \<times> string list) list" where
  "inverse_step M q =
     (let p = node_value (q_subject q); inv = node_value (q_object q);
          M1 = map_ensure M p;
          M2 = map_ensure M1 inv;
          M3 = map_get_add M2 p inv
      in map_get_add M3 inv p)"

definition build_inversePairs :: "quad list \<Rightarrow> (string \<times> string list) list" where
  "build_inversePairs store =
     (let qs = getQuads store None (Some OWL_INV) None
      in foldl inverse_step (foldl inverse_step [] qs) qs)"

definition build_indices :: "quad list \<Rightarrow> indices" where
  "build_indices store =
     \<lparr>classSupers = transitiveClosure (mapFromQuads store RDFS_SC),
      propSupers = transitiveClosure (mapFromQuads store RDFS_SP),
      domainMap = mapFromQuads store RDFS_DOMAIN,
      rangeMap = mapFromQuads store RDFS_RANGE,
      symmetricProps = foldl set_add []
         (map (\<lambda>q. node_value (q_subject q))
              (getQuads store None (Some RDF_TYPE) (Some (NamedNode OWL_SYM)))),
      transitiveProps = foldl set_add []
         (map (\<lambda>q. node_value (q_subject q))
              (getQuads store None (Some RDF_TYPE) (Some (NamedNode OWL_TRANS)))),
      inversePairs = build_inversePairs store\<rparr>"

section \<open>Work queues and local expanders\<close>

text \<open>\<^verbatim>\<open>enqueue(stmts)\<close>: the body of its loop for one statement, then the loop.\<close>

definition enqueue_one :: "run_state \<Rightarrow> statement \<Rightarrow> run_state" where
  "enqueue_one rs s =
     (let nt = toNT s
      in if nt \<in> set (seen rs) then rs
         else
           let q = \<lparr>q_subject = toSubject (subject s), q_predicate = predicate s,
                    q_object = toObject (object s), q_graph = None\<rparr>
           in rs\<lparr>baseGraph := graph_add (baseGraph rs) (st (subject s) (predicate s) (object s)),
                 seen := set_add (seen rs) nt,
                 overlayStore := addQuad (overlayStore rs) q,
                 rdfjsStore := addQuad (rdfjsStore rs) q,
                 workTypes := (if predicate s = RDF_TYPE then workTypes rs @ [s] else workTypes rs),
                 workProps := (if predicate s = RDF_TYPE then workProps rs else workProps rs @ [s])\<rparr>)"

definition enqueue :: "run_state \<Rightarrow> statement list \<Rightarrow> run_state" where
  "enqueue rs stmts = foldl enqueue_one rs stmts"

definition expandTypesWithClosure :: "indices \<Rightarrow> statement list \<Rightarrow> statement list" where
  "expandTypesWithClosure idx newTypes =
     concat (map (\<lambda>s.
        let c = node_value (object s); supers = map_get (classSupers idx) c
        in map (\<lambda>sup. st (subject s) RDF_TYPE (NamedNode sup)) (filter isAbsoluteIri supers))
      newTypes)"

definition expandPropsWithClosure :: "indices \<Rightarrow> statement list \<Rightarrow> statement list" where
  "expandPropsWithClosure idx newProps =
     concat (map (\<lambda>s.
        let p = predicate s; supers = map_get (propSupers idx) p
        in map (\<lambda>sup. st (subject s) sup (object s)) (filter isAbsoluteIri supers))
      newProps)"

text \<open>
  The three expanders above call \<^verbatim>\<open>$rdf.sym\<close> behind the \<^verbatim>\<open>isAbsoluteIri\<close> guard (or on
  the constant \<^verbatim>\<open>RDF_TYPE\<close>), where it cannot throw (lemma \<open>isAbsoluteIri_sym\<close> below).
  \<^verbatim>\<open>applyInverseAndSymmetric\<close> and \<^verbatim>\<open>applyTransitiveProps\<close> call it unguarded.

  \<^verbatim>\<open>out.push($rdf.st(s, $rdf.sym(p), o))\<close>:
\<close>

definition push_st :: "node \<Rightarrow> string \<Rightarrow> node \<Rightarrow> error + statement list" where
  "push_st s p ob = (case sym p of Inl e \<Rightarrow> Inl e | Inr pn \<Rightarrow> Inr [st s (node_value pn) ob])"

definition applyInverseAndSymmetric :: "indices \<Rightarrow> statement list \<Rightarrow> error + statement list" where
  "applyInverseAndSymmetric idx newProps =
     collect (\<lambda>s.
        let p = predicate s
        in both (if p \<in> set (symmetricProps idx) then push_st (object s) p (subject s) else Inr [])
                (collect (\<lambda>inv. push_st (object s) inv (subject s)) (map_get (inversePairs idx) p)))
      newProps"

definition applyDomainRange :: "indices \<Rightarrow> statement list \<Rightarrow> statement list" where
  "applyDomainRange idx newProps =
     concat (map (\<lambda>s.
        let p = predicate s
        in map (\<lambda>d. st (subject s) RDF_TYPE (NamedNode d))
               (filter isAbsoluteIri (map_get (domainMap idx) p))
           @ map (\<lambda>r. st (object s) RDF_TYPE (NamedNode r))
               (filter isAbsoluteIri (map_get (rangeMap idx) p)))
      newProps)"

text \<open>
  \<^verbatim>\<open>applyTransitiveProps\<close> reads the shared store. The arguments of \<^verbatim>\<open>$rdf.st\<close> are
  evaluated from left to right: in the first loop \<^verbatim>\<open>$rdf.sym(p)\<close> before
  \<^verbatim>\<open>$rdf.sym(yz.object.value)\<close>, in the second \<^verbatim>\<open>$rdf.sym(wx.subject.value)\<close> before
  \<^verbatim>\<open>$rdf.sym(p)\<close>.
\<close>

definition applyTransitiveProps :: "indices \<Rightarrow> quad list \<Rightarrow> statement list \<Rightarrow> error + statement list" where
  "applyTransitiveProps idx store newPropsBatch =
     collect (\<lambda>s.
        let p = predicate s
        in if p \<notin> set (transitiveProps idx) then Inr []
           else both
             (collect (\<lambda>yz.
                  case sym p of
                    Inl e \<Rightarrow> Inl e
                  | Inr pn \<Rightarrow>
                      (case sym (node_value (q_object yz)) of
                         Inl e \<Rightarrow> Inl e
                       | Inr z \<Rightarrow> Inr [st (subject s) (node_value pn) z]))
                (getQuads store (Some (object s)) (Some p) None))
             (collect (\<lambda>wx.
                  case sym (node_value (q_subject wx)) of
                    Inl e \<Rightarrow> Inl e
                  | Inr w \<Rightarrow> push_st w p (object s))
                (getQuads store None (Some p) (Some (subject s)))))
      newPropsBatch"

text \<open>
  One turn of the \<^verbatim>\<open>while\<close> loop of \<^verbatim>\<open>processQueues\<close>. The four property expanders
  run before anything is enqueued; when one of them throws, the queue has been emptied by
  \<^verbatim>\<open>splice\<close> and nothing of the batch has been enqueued.
\<close>

definition enqueue_extra :: "run_state \<times> bool \<Rightarrow> statement list \<Rightarrow> run_state \<times> bool" where
  "enqueue_extra acc extra =
     (if extra \<noteq> [] then (enqueue (fst acc) extra, True) else acc)"

definition drain_types :: "indices \<Rightarrow> run_state \<times> bool \<Rightarrow> run_state \<times> bool" where
  "drain_types idx acc =
     (let rs = fst acc
      in if workTypes rs \<noteq> [] then
           let batch = workTypes rs;
               rs1 = rs\<lparr>workTypes := []\<rparr>;
               extra = expandTypesWithClosure idx batch
           in enqueue_extra (rs1, snd acc) extra
         else acc)"

definition drain_props :: "indices \<Rightarrow> run_state \<times> bool
    \<Rightarrow> (error \<times> run_state) + (run_state \<times> bool)" where
  "drain_props idx acc =
     (let rs = fst acc
      in if workProps rs \<noteq> [] then
           let batch = workProps rs;
               rs1 = rs\<lparr>workProps := []\<rparr>;
               extra1 = expandPropsWithClosure idx batch
           in case applyInverseAndSymmetric idx batch of
                Inl e \<Rightarrow> Inl (e, rs1)
              | Inr extra2 \<Rightarrow>
                  let extra3 = applyDomainRange idx batch
                  in case applyTransitiveProps idx (rdfjsStore rs1) batch of
                       Inl e \<Rightarrow> Inl (e, rs1)
                     | Inr extra4 \<Rightarrow>
                         Inr (enqueue_extra (enqueue_extra (enqueue_extra (enqueue_extra
                                (rs1, snd acc) extra1) extra2) extra3) extra4)
         else Inr acc)"

definition drain_step :: "indices \<Rightarrow> run_state \<times> bool
    \<Rightarrow> (error \<times> run_state) + (run_state \<times> bool)" where
  "drain_step idx acc = drain_props idx (drain_types idx acc)"

section \<open>Rule queries\<close>

definition PREFIXES :: string where
  "PREFIXES = ''\<newline>    PREFIX rdf:  <http://www.w3.org/1999/02/22-rdf-syntax-ns#>\<newline>    PREFIX rdfs: <http://www.w3.org/2000/01/rdf-schema#>\<newline>    PREFIX owl:  <http://www.w3.org/2002/07/owl#>\<newline>  ''"

definition RULE_inverse :: string where
  "RULE_inverse = ''\<newline>      CONSTRUCT { ?S ?P ?O }\<newline>      WHERE {\<newline>        {\<newline>          ?x ?p ?y .\<newline>          ?p owl:inverseOf ?inverse .\<newline>          BIND(?y AS ?S) BIND(?inverse AS ?P) BIND(?x AS ?O)\<newline>        }\<newline>        UNION\<newline>        {\<newline>          ?x ?inverse ?y .\<newline>          ?p owl:inverseOf ?inverse .\<newline>          BIND(?y AS ?S) BIND(?p AS ?P) BIND(?x AS ?O)\<newline>        }\<newline>        FILTER NOT EXISTS {\<newline>          { ?S ?P ?O }\<newline>          UNION\<newline>          { GRAPH ?g { ?S ?P ?O } }\<newline>        }\<newline>      }\<newline>    ''"

definition RULE_subpropertyof :: string where
  "RULE_subpropertyof = ''\<newline>      CONSTRUCT { ?x ?super ?y }\<newline>      WHERE {\<newline>        ?x ?p ?y .\<newline>        ?p rdfs:subPropertyOf+ ?super .\<newline>        FILTER(?p != ?super)\<newline>        FILTER NOT EXISTS {\<newline>          { ?x ?super ?y }\<newline>          UNION\<newline>          { GRAPH ?g { ?x ?super ?y } }\<newline>        }\<newline>      }\<newline>    ''"

definition RULE_subclassof :: string where
  "RULE_subclassof = ''\<newline>      CONSTRUCT { ?x rdf:type ?superClass }\<newline>      WHERE {\<newline>        ?x rdf:type ?class .\<newline>        ?class rdfs:subClassOf+ ?superClass .\<newline>        FILTER(?class != ?superClass)\<newline>        FILTER NOT EXISTS {\<newline>          { ?x rdf:type ?superClass }\<newline>          UNION\<newline>          { GRAPH ?g { ?x rdf:type ?superClass } }\<newline>        }\<newline>      }\<newline>    ''"

definition RULE_domain :: string where
  "RULE_domain = ''\<newline>      CONSTRUCT { ?x rdf:type ?domain }\<newline>      WHERE {\<newline>        ?x ?p ?y .\<newline>        ?p rdfs:domain ?domain .\<newline>        FILTER NOT EXISTS {\<newline>          { ?x rdf:type ?domain }\<newline>          UNION\<newline>          { GRAPH ?g { ?x rdf:type ?domain } }\<newline>        }\<newline>      }\<newline>    ''"

definition RULE_range :: string where
  "RULE_range = ''\<newline>      CONSTRUCT { ?y rdf:type ?range }\<newline>      WHERE {\<newline>        ?x ?p ?y .\<newline>        ?p rdfs:range ?range .\<newline>        FILTER NOT EXISTS {\<newline>          { ?y rdf:type ?range }\<newline>          UNION\<newline>          { GRAPH ?g { ?y rdf:type ?range } }\<newline>        }\<newline>      }\<newline>    ''"

definition RULE_transitive :: string where
  "RULE_transitive = ''\<newline>      CONSTRUCT { ?x ?p ?z }\<newline>      WHERE {\<newline>        ?x ?p ?y .\<newline>        ?y ?p ?z .\<newline>        ?p a owl:TransitiveProperty .\<newline>        FILTER NOT EXISTS {\<newline>          { ?x ?p ?z }\<newline>          UNION\<newline>          { GRAPH ?g { ?x ?p ?z } }\<newline>        }\<newline>      }\<newline>    ''"

definition RULE_symmetric :: string where
  "RULE_symmetric = ''\<newline>      CONSTRUCT { ?y ?p ?x }\<newline>      WHERE {\<newline>        ?x ?p ?y .\<newline>        ?p a owl:SymmetricProperty .\<newline>        FILTER NOT EXISTS {\<newline>          { ?y ?p ?x }\<newline>          UNION\<newline>          { GRAPH ?g { ?y ?p ?x } }\<newline>        }\<newline>      }\<newline>    ''"

text \<open>
  \<^verbatim>\<open>RULES[rule]\<close> also finds the members an object literal inherits from
  \<^verbatim>\<open>Object.prototype\<close>; appended to a string they give the text of a native function, or
  \<^verbatim>\<open>[object Object]\<close> for \<^verbatim>\<open>__proto__\<close>. The exact text depends on the engine (the
  model has the usual one); it is never empty.
\<close>

definition Object_prototype :: "string \<Rightarrow> string option" where
  "Object_prototype name =
     (if name = ''__proto__'' then Some ''[object Object]''
      else if name = ''constructor'' then Some ''function Object() { [native code] }''
      else if name \<in> set [''toString'', ''toLocaleString'', ''valueOf'', ''hasOwnProperty'',
                ''isPrototypeOf'', ''propertyIsEnumerable'', ''__defineGetter__'',
                ''__defineSetter__'', ''__lookupGetter__'', ''__lookupSetter__'']
           then Some (''function '' @ name @ ''() { [native code] }'')
      else None)"

text \<open>The \<^verbatim>\<open>RULES\<close> object literal: its own properties, then the inherited ones.\<close>

definition RULES :: "string \<Rightarrow> string option" where
  "RULES rule =
     (if rule = ''inverse'' then Some RULE_inverse
      else if rule = ''subpropertyof'' then Some RULE_subpropertyof
      else if rule = ''subclassof'' then Some RULE_subclassof
      else if rule = ''domain'' then Some RULE_domain
      else if rule = ''range'' then Some RULE_range
      else if rule = ''transitive'' then Some RULE_transitive
      else if rule = ''symmetric'' then Some RULE_symmetric
      else Object_prototype rule)"

text \<open>\<^verbatim>\<open>getConstructQueryForRule(rule)\<close>: \<^verbatim>\<open>PREFIXES + (RULES[rule] || '')\<close>\<close>

definition getConstructQueryForRule :: "string \<Rightarrow> string" where
  "getConstructQueryForRule rule =
     PREFIXES @ (case RULES rule of None \<Rightarrow> [] | Some q \<Rightarrow> q)"


section \<open>Term construction that can throw\<close>

text \<open>An absolute IRI, in the sense of \<^verbatim>\<open>isAbsoluteIri\<close>, is accepted by \<^verbatim>\<open>$rdf.sym\<close> and
  left as it is by \<^verbatim>\<open>normalizeIriString\<close>.\<close>

lemma ci_eq_colon: "ci_eq c (CHR '':'') \<Longrightarrow> c = CHR '':''"
  by (auto simp: ci_eq_def)

lemma starts_with_ci_set:
  "starts_with_ci pre s \<Longrightarrow> CHR '':'' \<in> set pre \<Longrightarrow> CHR '':'' \<in> set s"
  by (induction pre s rule: starts_with_ci.induct) (auto dest: ci_eq_colon)

lemma isAbsoluteIri_colon: "isAbsoluteIri v \<Longrightarrow> CHR '':'' \<in> set v"
  unfolding isAbsoluteIri_def
  by (auto split: if_splits dest!: starts_with_ci_set)

lemma isAbsoluteIri_no_space: "isAbsoluteIri v \<Longrightarrow> \<forall>c \<in> set v. \<not> is_space c"
  unfolding isAbsoluteIri_def by (auto split: if_splits)

lemma isAbsoluteIri_sym: "isAbsoluteIri v \<Longrightarrow> sym v = Inr (NamedNode v)"
proof -
  assume a: "isAbsoluteIri v"
  have "v \<noteq> []" using a by (auto simp: isAbsoluteIri_def)
  moreover have "CHR '':'' \<in> set v" using a by (rule isAbsoluteIri_colon)
  moreover have "CHR '' '' \<notin> set v" using isAbsoluteIri_no_space[OF a] by (auto simp: is_space_def)
  ultimately show ?thesis by (simp add: sym_def)
qed






lemma to_lower_idem: "to_lower (to_lower c) = to_lower c"
  unfolding to_lower_def by (simp split: if_splits)

lemma toLowerCase_idem: "toLowerCase (toLowerCase s) = toLowerCase s"
  by (simp add: toLowerCase_def to_lower_idem)

text \<open>What the unguarded expanders return when no \<^verbatim>\<open>$rdf.sym\<close> throws.\<close>

lemma sym_Inr: "sym v = Inr n \<Longrightarrow> n = NamedNode v"
  by (auto simp: sym_def split: if_splits)

lemma sym_Inl: "sym v = Inl e \<Longrightarrow> e = InvalidIri v"
  by (auto simp: sym_def split: if_splits)

lemma push_st_Inr: "push_st s p ob = Inr out \<Longrightarrow> out = [st s p ob]"
  by (auto simp: push_st_def split: sum.splits dest: sym_Inr)

lemma both_Inr: "both a b = Inr out \<Longrightarrow> \<exists>xs ys. a = Inr xs \<and> b = Inr ys \<and> out = xs @ ys"
  by (auto simp: both_def split: sum.splits)

lemma collect_Inr:
  "collect f xs = Inr out \<Longrightarrow> (\<And>x ys. x \<in> set xs \<Longrightarrow> f x = Inr ys \<Longrightarrow> ys = g x)
   \<Longrightarrow> out = concat (map g xs)"
proof (induction xs arbitrary: out)
  case Nil
  then show ?case by simp
next
  case (Cons x xs)
  from Cons.prems(1) obtain ys zs where f: "f x = Inr ys" and c: "collect f xs = Inr zs"
    and out: "out = ys @ zs" by (auto split: sum.splits)
  have "ys = g x" using Cons.prems(2)[of x ys] f by simp
  moreover have "zs = concat (map g xs)"
    using Cons.IH[OF c] Cons.prems(2) by simp
  ultimately show ?case using out by simp
qed

lemma collect_Inl: "collect f xs = Inl e \<Longrightarrow> \<exists>x \<in> set xs. f x = Inl e"
  by (induction xs) (auto split: sum.splits)

lemma collect_all_Inr: "collect f xs = Inr out \<Longrightarrow> x \<in> set xs \<Longrightarrow> \<exists>ys. f x = Inr ys"
  by (induction xs arbitrary: out) (auto split: sum.splits)

lemma each_Inr:
  assumes "each f xs = Inr ys"
  shows "ys = map (\<lambda>x. projr (f x)) xs" and "x \<in> set xs \<Longrightarrow> f x = Inr (projr (f x))"
proof -
  let ?g = "\<lambda>x. case f x of Inl e \<Rightarrow> Inl e | Inr y \<Rightarrow> Inr [y]"
  have c: "collect ?g xs = Inr ys" using assms by (simp add: each_def)
  then have "ys = concat (map (\<lambda>x. [projr (f x)]) xs)"
    by (rule collect_Inr) (auto split: sum.splits)
  then show "ys = map (\<lambda>x. projr (f x)) xs" by simp
  show "f x = Inr (projr (f x))" if "x \<in> set xs"
    using collect_all_Inr[OF c that] by (auto split: sum.splits)
qed

lemma each_Nil [simp]: "each f [] = Inr []"
  by (simp add: each_def)

lemma each_Inl:
  assumes "each f xs = Inl e"
  shows "\<exists>x \<in> set xs. f x = Inl e"
proof -
  from assms obtain x where x: "x \<in> set xs"
    "(case f x of Inl e \<Rightarrow> Inl e | Inr y \<Rightarrow> Inr [y]) = Inl e"
    unfolding each_def by (blast dest: collect_Inl)
  then have "f x = Inl e" by (cases "f x") auto
  with x(1) show ?thesis by blast
qed

lemma collect_push_st:
  "collect (\<lambda>p. push_st s p ob) ps = Inr out \<Longrightarrow> out = map (\<lambda>p. st s p ob) ps"
proof -
  assume "collect (\<lambda>p. push_st s p ob) ps = Inr out"
  then have "out = concat (map (\<lambda>p. [st s p ob]) ps)"
    by (rule collect_Inr) (rule push_st_Inr)
  then show ?thesis by (simp add: concat_map_singleton)
qed

lemma applyInverseAndSymmetric_Inr:
  assumes "applyInverseAndSymmetric idx newProps = Inr out"
  shows "out = concat (map (\<lambda>s.
            (if predicate s \<in> set (symmetricProps idx)
             then [st (object s) (predicate s) (subject s)] else [])
            @ map (\<lambda>inv. st (object s) inv (subject s))
                (map_get (inversePairs idx) (predicate s))) newProps)"
  using assms unfolding applyInverseAndSymmetric_def
proof (rule collect_Inr)
  fix s ys
  assume "(let p = predicate s
           in both (if p \<in> set (symmetricProps idx) then push_st (object s) p (subject s) else Inr [])
                (collect (\<lambda>inv. push_st (object s) inv (subject s)) (map_get (inversePairs idx) p)))
          = Inr ys"
  then obtain a b where
    a: "(if predicate s \<in> set (symmetricProps idx)
         then push_st (object s) (predicate s) (subject s) else Inr []) = Inr a" and
    b: "collect (\<lambda>inv. push_st (object s) inv (subject s))
          (map_get (inversePairs idx) (predicate s)) = Inr b" and
    ys: "ys = a @ b"
    by (auto simp: Let_def dest!: both_Inr)
  have "a = (if predicate s \<in> set (symmetricProps idx)
             then [st (object s) (predicate s) (subject s)] else [])"
    using a by (auto split: if_splits dest: push_st_Inr)
  moreover have "b = map (\<lambda>inv. st (object s) inv (subject s))
                       (map_get (inversePairs idx) (predicate s))"
    using b by (rule collect_push_st)
  ultimately show "ys = (if predicate s \<in> set (symmetricProps idx)
             then [st (object s) (predicate s) (subject s)] else [])
            @ map (\<lambda>inv. st (object s) inv (subject s))
                (map_get (inversePairs idx) (predicate s))"
    using ys by simp
qed

lemma applyInverseAndSymmetric_set:
  assumes "applyInverseAndSymmetric idx newProps = Inr out"
  shows "set out =
     {st (object s) (predicate s) (subject s) | s.
        s \<in> set newProps \<and> predicate s \<in> set (symmetricProps idx)}
     \<union> {st (object s) inv (subject s) | s inv.
        s \<in> set newProps \<and> inv \<in> set (map_get (inversePairs idx) (predicate s))}"
  unfolding applyInverseAndSymmetric_Inr[OF assms] by (auto split: if_splits)

lemma applyTransitiveProps_Inr:
  assumes "applyTransitiveProps idx store batch = Inr out"
  shows "out = concat (map (\<lambda>s.
            if predicate s \<notin> set (transitiveProps idx) then []
            else map (\<lambda>yz. st (subject s) (predicate s) (NamedNode (node_value (q_object yz))))
                     (getQuads store (Some (object s)) (Some (predicate s)) None)
               @ map (\<lambda>wx. st (NamedNode (node_value (q_subject wx))) (predicate s) (object s))
                     (getQuads store None (Some (predicate s)) (Some (subject s)))) batch)"
  using assms unfolding applyTransitiveProps_def
proof (rule collect_Inr)
  fix s ys
  let ?p = "predicate s"
  let ?f1 = "\<lambda>yz. case sym ?p of Inl e \<Rightarrow> Inl e
               | Inr pn \<Rightarrow> (case sym (node_value (q_object yz)) of Inl e \<Rightarrow> Inl e
                    | Inr z \<Rightarrow> Inr [st (subject s) (node_value pn) z])"
  let ?f2 = "\<lambda>wx. case sym (node_value (q_subject wx)) of Inl e \<Rightarrow> Inl e
               | Inr w \<Rightarrow> push_st w ?p (object s)"
  let ?q1 = "getQuads store (Some (object s)) (Some ?p) None"
  let ?q2 = "getQuads store None (Some ?p) (Some (subject s))"
  assume a: "(let p = predicate s
           in if p \<notin> set (transitiveProps idx) then Inr []
              else both (collect (\<lambda>yz. case sym p of Inl e \<Rightarrow> Inl e
                     | Inr pn \<Rightarrow> (case sym (node_value (q_object yz)) of Inl e \<Rightarrow> Inl e
                          | Inr z \<Rightarrow> Inr [st (subject s) (node_value pn) z]))
                   (getQuads store (Some (object s)) (Some p) None))
                 (collect (\<lambda>wx. case sym (node_value (q_subject wx)) of Inl e \<Rightarrow> Inl e
                     | Inr w \<Rightarrow> push_st w p (object s))
                   (getQuads store None (Some p) (Some (subject s))))) = Inr ys"
  show "ys = (if ?p \<notin> set (transitiveProps idx) then []
            else map (\<lambda>yz. st (subject s) ?p (NamedNode (node_value (q_object yz)))) ?q1
               @ map (\<lambda>wx. st (NamedNode (node_value (q_subject wx))) ?p (object s)) ?q2)"
  proof (cases "?p \<in> set (transitiveProps idx)")
    case False
    then show ?thesis using a by (simp add: Let_def)
  next
    case True
    from a True obtain x y where x: "collect ?f1 ?q1 = Inr x" and y: "collect ?f2 ?q2 = Inr y"
      and ys: "ys = x @ y" by (auto simp: Let_def dest!: both_Inr)
    have "x = concat (map (\<lambda>yz. [st (subject s) ?p (NamedNode (node_value (q_object yz)))]) ?q1)"
      using x by (rule collect_Inr) (auto split: sum.splits dest!: sym_Inr)
    moreover have "y = concat (map (\<lambda>wx. [st (NamedNode (node_value (q_subject wx))) ?p (object s)]) ?q2)"
      using y by (rule collect_Inr) (auto split: sum.splits dest!: sym_Inr push_st_Inr)
    ultimately show ?thesis using True ys by (simp add: concat_map_singleton)
  qed
qed

lemma applyTransitiveProps_set:
  assumes "applyTransitiveProps idx store batch = Inr out"
  shows "set out =
     {st (subject s) (predicate s) (NamedNode (node_value (q_object yz))) | s yz.
        s \<in> set batch \<and> predicate s \<in> set (transitiveProps idx) \<and> yz \<in> set store
        \<and> q_subject yz = object s \<and> q_predicate yz = predicate s}
     \<union> {st (NamedNode (node_value (q_subject wx))) (predicate s) (object s) | s wx.
        s \<in> set batch \<and> predicate s \<in> set (transitiveProps idx) \<and> wx \<in> set store
        \<and> q_object wx = subject s \<and> q_predicate wx = predicate s}"
  unfolding applyTransitiveProps_Inr[OF assms] by (auto simp: getQuads_def split: if_splits)

section \<open>The drain loop terminates\<close>

text \<open>
  The \<^verbatim>\<open>while\<close> loop of \<^verbatim>\<open>processQueues\<close> has no bound of its own. Every statement an
  expander can emit is built from the terms in the queues, from named nodes made of the
  values in the store, and from the frozen indices; the keys of those statements form a
  finite set, and each turn either leaves the queues empty or adds a key of that set to
  the seen index.
\<close>

definition stmt_nodes :: "statement list \<Rightarrow> node set" where
  "stmt_nodes xs = subject ` set xs \<union> object ` set xs"

definition quad_nodes :: "quad list \<Rightarrow> node set" where
  "quad_nodes qs = q_subject ` set qs \<union> q_object ` set qs"

definition idx_vals :: "indices \<Rightarrow> string set" where
  "idx_vals idx = edge_values (classSupers idx) \<union> edge_values (domainMap idx)
                  \<union> edge_values (rangeMap idx)"

definition idx_preds :: "indices \<Rightarrow> string set" where
  "idx_preds idx = insert RDF_TYPE (edge_values (propSupers idx) \<union> edge_values (inversePairs idx))"

definition queued :: "run_state \<Rightarrow> statement list" where
  "queued rs = workTypes rs @ workProps rs"

definition uvals :: "indices \<Rightarrow> run_state \<Rightarrow> string set" where
  "uvals idx rs = node_value ` (stmt_nodes (queued rs) \<union> quad_nodes (rdfjsStore rs)) \<union> idx_vals idx"

definition unodes :: "indices \<Rightarrow> run_state \<Rightarrow> node set" where
  "unodes idx rs = stmt_nodes (queued rs) \<union> NamedNode ` uvals idx rs"

definition upreds :: "indices \<Rightarrow> run_state \<Rightarrow> string set" where
  "upreds idx rs = predicate ` set (queued rs) \<union> idx_preds idx"

definition keys_of :: "node set \<Rightarrow> string set \<Rightarrow> string set" where
  "keys_of N P = (\<lambda>(s, p, ob). toNT (st s p ob)) ` (N \<times> P \<times> N)"

definition ukeys :: "indices \<Rightarrow> run_state \<Rightarrow> string set" where
  "ukeys idx rs = keys_of (unodes idx rs) (upreds idx rs)"

definition within :: "node set \<Rightarrow> string set \<Rightarrow> statement \<Rightarrow> bool" where
  "within N P x = (subject x \<in> N \<and> predicate x \<in> P \<and> object x \<in> N)"

definition fits :: "node set \<Rightarrow> string set \<Rightarrow> string set \<Rightarrow> run_state \<Rightarrow> bool" where
  "fits N P V rs = ((\<forall>x \<in> set (queued rs). within N P x)
                    \<and> node_value ` quad_nodes (rdfjsStore rs) \<subseteq> V)"

definition closedU :: "indices \<Rightarrow> node set \<Rightarrow> string set \<Rightarrow> string set \<Rightarrow> bool" where
  "closedU idx N P V = (NamedNode ` V \<subseteq> N \<and> node_value ` N \<subseteq> V
                        \<and> idx_vals idx \<subseteq> V \<and> idx_preds idx \<subseteq> P)"

definition ext :: "string set \<Rightarrow> run_state \<Rightarrow> run_state \<Rightarrow> bool" where
  "ext K rs rs' = (\<exists>ks. seen rs' = seen rs @ ks \<and> set ks \<subseteq> K \<and> set ks \<inter> set (seen rs) = {}
                     \<and> length (queued rs') = length (queued rs) + length ks
                     \<and> length (workProps rs) \<le> length (workProps rs'))"

lemma finite_keys_of: "finite N \<Longrightarrow> finite P \<Longrightarrow> finite (keys_of N P)"
  by (simp add: keys_of_def)

lemma finite_ukeys: "finite (ukeys idx rs)"
  by (simp add: ukeys_def unodes_def upreds_def uvals_def stmt_nodes_def quad_nodes_def
      idx_vals_def idx_preds_def finite_edge_values finite_keys_of)

lemma toNT_st: "toNT (st (subject x) (predicate x) (object x)) = toNT x"
  by (simp add: toNT_def st_def)

lemma within_key: "within N P x \<Longrightarrow> toNT x \<in> keys_of N P"
proof -
  assume "within N P x"
  then have "(subject x, predicate x, object x) \<in> N \<times> P \<times> N"
    by (simp add: within_def)
  then have "(\<lambda>(s, p, ob). toNT (st s p ob)) (subject x, predicate x, object x) \<in> keys_of N P"
    unfolding keys_of_def by (rule imageI)
  then show ?thesis by (simp add: toNT_st)
qed

lemma map_get_subset: "set (map_get M k) \<subseteq> edge_values M"
  by (cases "map_of M k") (auto simp: map_get_def dest: map_of_edge_values)

lemma node_value_toSubject: "node_value (toSubject s) = node_value s"
  by (cases s) auto

lemma node_value_toObject: "node_value (toObject s) = node_value s"
  by (cases s) auto

lemma ext_refl: "ext K rs rs"
  by (simp add: ext_def)

lemma ext_trans: "ext K a b \<Longrightarrow> ext K b c \<Longrightarrow> ext K a c"
proof -
  assume "ext K a b" "ext K b c"
  then obtain ks ks' where
    1: "seen b = seen a @ ks" "set ks \<subseteq> K" "set ks \<inter> set (seen a) = {}"
       "length (queued b) = length (queued a) + length ks"
       "length (workProps a) \<le> length (workProps b)" and
    2: "seen c = seen b @ ks'" "set ks' \<subseteq> K" "set ks' \<inter> set (seen b) = {}"
       "length (queued c) = length (queued b) + length ks'"
       "length (workProps b) \<le> length (workProps c)"
    unfolding ext_def by blast
  have "seen c = seen a @ (ks @ ks')" using 1 2 by simp
  moreover have "set (ks @ ks') \<subseteq> K" using 1 2 by simp
  moreover have "set (ks @ ks') \<inter> set (seen a) = {}" using 1 2 by auto
  moreover have "length (queued c) = length (queued a) + length (ks @ ks')" using 1 2 by simp
  moreover have "length (workProps a) \<le> length (workProps c)" using 1 2 by simp
  ultimately show ?thesis unfolding ext_def by blast
qed

lemma enqueue_one_fits:
  assumes "fits N P V rs" "node_value ` N \<subseteq> V" "within N P s"
  shows "fits N P V (enqueue_one rs s)"
  using assms
  by (auto simp: enqueue_one_def Let_def fits_def queued_def addQuad_def quad_nodes_def
      within_def node_value_toSubject node_value_toObject)

lemma enqueue_one_ext:
  assumes "within N P s"
  shows "ext (keys_of N P) rs (enqueue_one rs s)"
proof (cases "toNT s \<in> set (seen rs)")
  case True
  then show ?thesis by (simp add: enqueue_one_def ext_refl)
next
  case False
  have "seen (enqueue_one rs s) = seen rs @ [toNT s]"
    using False by (simp add: enqueue_one_def Let_def set_add_def)
  moreover have "set [toNT s] \<subseteq> keys_of N P" using within_key[OF assms] by simp
  moreover have "set [toNT s] \<inter> set (seen rs) = {}" using False by simp
  moreover have "length (queued (enqueue_one rs s)) = length (queued rs) + length [toNT s]"
    using False by (simp add: enqueue_one_def Let_def queued_def)
  moreover have "length (workProps rs) \<le> length (workProps (enqueue_one rs s))"
    using False by (simp add: enqueue_one_def Let_def)
  ultimately show ?thesis unfolding ext_def by blast
qed

lemma enqueue_fits_ext:
  assumes "node_value ` N \<subseteq> V"
  shows "fits N P V rs \<Longrightarrow> \<forall>x \<in> set xs. within N P x \<Longrightarrow>
         fits N P V (enqueue rs xs) \<and> ext (keys_of N P) rs (enqueue rs xs)"
proof (induction xs arbitrary: rs)
  case Nil
  then show ?case by (simp add: enqueue_def ext_refl)
next
  case (Cons x xs)
  have f: "fits N P V (enqueue_one rs x)"
    using enqueue_one_fits[OF Cons.prems(1) assms] Cons.prems(2) by simp
  have e: "ext (keys_of N P) rs (enqueue_one rs x)"
    using enqueue_one_ext Cons.prems(2) by simp
  have "fits N P V (enqueue (enqueue_one rs x) xs)
        \<and> ext (keys_of N P) (enqueue_one rs x) (enqueue (enqueue_one rs x) xs)"
    using Cons.IH[OF f] Cons.prems(2) by simp
  moreover have "enqueue rs (x # xs) = enqueue (enqueue_one rs x) xs"
    by (simp add: enqueue_def)
  ultimately show ?case using e ext_trans by metis
qed

lemma enqueue_extra_fits_ext:
  assumes "node_value ` N \<subseteq> V" "fits N P V (fst acc)" "\<forall>x \<in> set xs. within N P x"
  shows "fits N P V (fst (enqueue_extra acc xs))
         \<and> ext (keys_of N P) (fst acc) (fst (enqueue_extra acc xs))"
  using enqueue_fits_ext[OF assms] assms(2) by (simp add: enqueue_extra_def ext_refl)

lemma closedU_named: "closedU idx N P V \<Longrightarrow> v \<in> V \<Longrightarrow> NamedNode v \<in> N"
  unfolding closedU_def by blast

lemma closedU_idx_named: "closedU idx N P V \<Longrightarrow> v \<in> idx_vals idx \<Longrightarrow> NamedNode v \<in> N"
  unfolding closedU_def by blast

lemma expandTypes_within:
  assumes "closedU idx N P V" "\<forall>x \<in> set batch. within N P x"
  shows "\<forall>y \<in> set (expandTypesWithClosure idx batch). within N P y"
proof
  fix y assume "y \<in> set (expandTypesWithClosure idx batch)"
  then obtain s sup where s: "s \<in> set batch"
    and sup: "sup \<in> set (map_get (classSupers idx) (node_value (object s)))"
    and y: "y = st (subject s) RDF_TYPE (NamedNode sup)"
    by (auto simp: expandTypesWithClosure_def Let_def)
  have "sup \<in> idx_vals idx" using sup map_get_subset by (fastforce simp: idx_vals_def)
  then have "NamedNode sup \<in> N" using assms(1) by (rule closedU_idx_named[rotated])
  moreover have "RDF_TYPE \<in> P" using assms(1) by (auto simp: closedU_def idx_preds_def)
  moreover have "subject s \<in> N" using assms(2) s by (simp add: within_def)
  ultimately show "within N P y" by (simp add: y within_def st_def)
qed

lemma expandProps_within:
  assumes "closedU idx N P V" "\<forall>x \<in> set batch. within N P x"
  shows "\<forall>y \<in> set (expandPropsWithClosure idx batch). within N P y"
proof
  fix y assume "y \<in> set (expandPropsWithClosure idx batch)"
  then obtain s sup where s: "s \<in> set batch"
    and sup: "sup \<in> set (map_get (propSupers idx) (predicate s))"
    and y: "y = st (subject s) sup (object s)"
    by (auto simp: expandPropsWithClosure_def Let_def)
  have "sup \<in> idx_preds idx" using sup map_get_subset by (fastforce simp: idx_preds_def)
  then have "sup \<in> P" using assms(1) by (auto simp: closedU_def)
  moreover have "subject s \<in> N" "object s \<in> N" using assms(2) s by (simp_all add: within_def)
  ultimately show "within N P y" by (simp add: y within_def st_def)
qed

lemma applyInverse_within:
  assumes "closedU idx N P V" "\<forall>x \<in> set batch. within N P x"
    and "applyInverseAndSymmetric idx batch = Inr out"
  shows "\<forall>y \<in> set out. within N P y"
proof
  fix y assume "y \<in> set out"
  then obtain s where s: "s \<in> set batch"
    and y: "y = st (object s) (predicate s) (subject s)
          \<or> (\<exists>inv \<in> set (map_get (inversePairs idx) (predicate s)).
                y = st (object s) inv (subject s))"
    unfolding applyInverseAndSymmetric_set[OF assms(3)] by blast
  have w: "subject s \<in> N" "object s \<in> N" "predicate s \<in> P"
    using assms(2) s by (simp_all add: within_def)
  from y show "within N P y"
  proof
    assume "y = st (object s) (predicate s) (subject s)"
    with w show ?thesis by (simp add: within_def st_def)
  next
    assume "\<exists>inv \<in> set (map_get (inversePairs idx) (predicate s)).
                y = st (object s) inv (subject s)"
    then obtain inv where inv: "inv \<in> set (map_get (inversePairs idx) (predicate s))"
      and y': "y = st (object s) inv (subject s)" by blast
    have "inv \<in> idx_preds idx" using inv map_get_subset by (fastforce simp: idx_preds_def)
    then have "inv \<in> P" using assms(1) by (auto simp: closedU_def)
    with w show ?thesis by (simp add: y' within_def st_def)
  qed
qed

lemma applyDomainRange_within:
  assumes "closedU idx N P V" "\<forall>x \<in> set batch. within N P x"
  shows "\<forall>y \<in> set (applyDomainRange idx batch). within N P y"
proof
  fix y assume "y \<in> set (applyDomainRange idx batch)"
  then obtain s c where s: "s \<in> set batch"
    and c: "c \<in> set (map_get (domainMap idx) (predicate s))
            \<or> c \<in> set (map_get (rangeMap idx) (predicate s))"
    and y: "y = st (subject s) RDF_TYPE (NamedNode c) \<or> y = st (object s) RDF_TYPE (NamedNode c)"
    by (auto simp: applyDomainRange_def Let_def)
  have "c \<in> idx_vals idx" using c map_get_subset by (fastforce simp: idx_vals_def)
  then have "NamedNode c \<in> N" using assms(1) by (rule closedU_idx_named[rotated])
  moreover have "RDF_TYPE \<in> P" using assms(1) by (auto simp: closedU_def idx_preds_def)
  moreover have "subject s \<in> N" "object s \<in> N" using assms(2) s by (simp_all add: within_def)
  ultimately show "within N P y" using y by (auto simp: within_def st_def)
qed

lemma applyTransitive_within:
  assumes "closedU idx N P V" "\<forall>x \<in> set batch. within N P x"
    "node_value ` quad_nodes store \<subseteq> V"
    and "applyTransitiveProps idx store batch = Inr out"
  shows "\<forall>y \<in> set out. within N P y"
proof
  fix y assume "y \<in> set out"
  then obtain s q where s: "s \<in> set batch" and q: "q \<in> set store"
    and y: "y = st (subject s) (predicate s) (NamedNode (node_value (q_object q)))
          \<or> y = st (NamedNode (node_value (q_subject q))) (predicate s) (object s)"
    unfolding applyTransitiveProps_set[OF assms(4)] by blast
  have "node_value (q_object q) \<in> V" "node_value (q_subject q) \<in> V"
    using q assms(3) by (auto simp: quad_nodes_def)
  then have "NamedNode (node_value (q_object q)) \<in> N" "NamedNode (node_value (q_subject q)) \<in> N"
    using assms(1) by (auto intro: closedU_named)
  moreover have "subject s \<in> N" "object s \<in> N" "predicate s \<in> P"
    using assms(2) s by (simp_all add: within_def)
  ultimately show "within N P y" using y by (auto simp: within_def st_def)
qed


lemma fits_clear_types: "fits N P V rs \<Longrightarrow> fits N P V (rs\<lparr>workTypes := []\<rparr>)"
  by (simp add: fits_def queued_def)

lemma fits_clear_props: "fits N P V rs \<Longrightarrow> fits N P V (rs\<lparr>workProps := []\<rparr>)"
  by (simp add: fits_def queued_def)

lemma fits_batch_types: "fits N P V rs \<Longrightarrow> \<forall>x \<in> set (workTypes rs). within N P x"
  by (simp add: fits_def queued_def)

lemma fits_batch_props: "fits N P V rs \<Longrightarrow> \<forall>x \<in> set (workProps rs). within N P x"
  by (simp add: fits_def queued_def)

lemma fits_store: "fits N P V rs \<Longrightarrow> node_value ` quad_nodes (rdfjsStore rs) \<subseteq> V"
  by (simp add: fits_def)

lemma closedU_values: "closedU idx N P V \<Longrightarrow> node_value ` N \<subseteq> V"
  by (simp add: closedU_def)

lemma drain_types_effect:
  assumes c: "closedU idx N P V" and f: "fits N P V (fst acc)"
  shows "fits N P V (fst (drain_types idx acc))
    \<and> (if workTypes (fst acc) = [] then drain_types idx acc = acc
        else ext (keys_of N P) ((fst acc)\<lparr>workTypes := []\<rparr>) (fst (drain_types idx acc)))"
proof (cases "workTypes (fst acc) = []")
  case True
  then show ?thesis using f by (simp add: drain_types_def)
next
  case False
  let ?rs1 = "(fst acc)\<lparr>workTypes := []\<rparr>"
  let ?extra = "expandTypesWithClosure idx (workTypes (fst acc))"
  have w: "\<forall>y \<in> set ?extra. within N P y"
    using expandTypes_within[OF c fits_batch_types[OF f]] .
  have "fits N P V (fst (enqueue_extra (?rs1, snd acc) ?extra))
        \<and> ext (keys_of N P) (fst (?rs1, snd acc)) (fst (enqueue_extra (?rs1, snd acc) ?extra))"
    by (rule enqueue_extra_fits_ext[OF closedU_values[OF c] _ w]) (simp add: fits_clear_types[OF f])
  moreover have "drain_types idx acc = enqueue_extra (?rs1, snd acc) ?extra"
    using False by (simp add: drain_types_def Let_def)
  ultimately show ?thesis using False by simp
qed

lemma drain_props_idle: "workProps (fst acc) = [] \<Longrightarrow> drain_props idx acc = Inr acc"
  by (simp add: drain_props_def)

lemma drain_props_Inr:
  assumes "drain_props idx acc = Inr acc'" "workProps (fst acc) \<noteq> []"
  shows "\<exists>e2 e4.
      applyInverseAndSymmetric idx (workProps (fst acc)) = Inr e2
    \<and> applyTransitiveProps idx (rdfjsStore (fst acc)) (workProps (fst acc)) = Inr e4
    \<and> acc' = enqueue_extra (enqueue_extra (enqueue_extra (enqueue_extra
        ((fst acc)\<lparr>workProps := []\<rparr>, snd acc)
        (expandPropsWithClosure idx (workProps (fst acc))))
        e2)
        (applyDomainRange idx (workProps (fst acc))))
        e4"
  using assms unfolding drain_props_def Let_def by (auto split: sum.splits)

lemma drain_props_Inl:
  assumes "drain_props idx acc = Inl (e, rs')"
  shows "workProps (fst acc) \<noteq> [] \<and> rs' = (fst acc)\<lparr>workProps := []\<rparr>"
  using assms unfolding drain_props_def Let_def by (auto split: sum.splits if_splits)

lemma drain_props_effect:
  assumes c: "closedU idx N P V" and f: "fits N P V (fst acc)"
    and r: "drain_props idx acc = Inr acc'"
  shows "fits N P V (fst acc')
    \<and> (if workProps (fst acc) = [] then acc' = acc
        else ext (keys_of N P) ((fst acc)\<lparr>workProps := []\<rparr>) (fst acc'))"
proof (cases "workProps (fst acc) = []")
  case True
  then have "acc' = acc" using r by (simp add: drain_props_idle)
  then show ?thesis using f True by simp
next
  case False
  define batch where "batch = workProps (fst acc)"
  define e1 where "e1 = expandPropsWithClosure idx batch"
  define e3 where "e3 = applyDomainRange idx batch"
  define a0 where "a0 = ((fst acc)\<lparr>workProps := []\<rparr>, snd acc)"
  from drain_props_Inr[OF r False] obtain e2 e4 where
    r2: "applyInverseAndSymmetric idx batch = Inr e2" and
    r4: "applyTransitiveProps idx (rdfjsStore (fst acc)) batch = Inr e4" and
    eq: "acc' = enqueue_extra (enqueue_extra (enqueue_extra (enqueue_extra a0 e1) e2) e3) e4"
    unfolding batch_def e1_def e3_def a0_def by blast
  define a1 where "a1 = enqueue_extra a0 e1"
  define a2 where "a2 = enqueue_extra a1 e2"
  define a3 where "a3 = enqueue_extra a2 e3"
  define a4 where "a4 = enqueue_extra a3 e4"
  have b: "\<forall>x \<in> set batch. within N P x"
    unfolding batch_def by (rule fits_batch_props[OF f])
  note v = closedU_values[OF c]
  have w1: "\<forall>y \<in> set e1. within N P y" unfolding e1_def by (rule expandProps_within[OF c b])
  have w2: "\<forall>y \<in> set e2. within N P y" by (rule applyInverse_within[OF c b r2])
  have w3: "\<forall>y \<in> set e3. within N P y" unfolding e3_def by (rule applyDomainRange_within[OF c b])
  have w4: "\<forall>y \<in> set e4. within N P y"
    by (rule applyTransitive_within[OF c b fits_store[OF f] r4])
  have f0: "fits N P V (fst a0)" unfolding a0_def fst_conv by (rule fits_clear_props[OF f])
  have s1: "fits N P V (fst a1) \<and> ext (keys_of N P) (fst a0) (fst a1)"
    unfolding a1_def by (rule enqueue_extra_fits_ext[OF v f0 w1])
  have s2: "fits N P V (fst a2) \<and> ext (keys_of N P) (fst a1) (fst a2)"
    unfolding a2_def by (rule enqueue_extra_fits_ext[OF v conjunct1[OF s1] w2])
  have s3: "fits N P V (fst a3) \<and> ext (keys_of N P) (fst a2) (fst a3)"
    unfolding a3_def by (rule enqueue_extra_fits_ext[OF v conjunct1[OF s2] w3])
  have s4: "fits N P V (fst a4) \<and> ext (keys_of N P) (fst a3) (fst a4)"
    unfolding a4_def by (rule enqueue_extra_fits_ext[OF v conjunct1[OF s3] w4])
  have e: "ext (keys_of N P) (fst a0) (fst a4)"
    by (rule ext_trans[OF ext_trans[OF ext_trans[OF conjunct2[OF s1] conjunct2[OF s2]]
          conjunct2[OF s3]] conjunct2[OF s4]])
  have eq': "acc' = a4"
    unfolding a4_def a3_def a2_def a1_def by (rule eq)
  have "fst a0 = (fst acc)\<lparr>workProps := []\<rparr>" by (simp add: a0_def)
  then show ?thesis using False s4 e unfolding eq' by simp
qed

definition progress :: "string set \<Rightarrow> run_state \<Rightarrow> run_state \<Rightarrow> bool" where
  "progress K rs rs' = (\<exists>ks. seen rs' = seen rs @ ks \<and> set ks \<subseteq> K \<and> set ks \<inter> set (seen rs) = {}
                          \<and> length (queued rs') \<le> length ks)"

lemma drain_step_effect:
  assumes c: "closedU idx N P V" and f: "fits N P V (fst acc)"
    and r: "drain_step idx acc = Inr acc'"
  shows "fits N P V (fst acc') \<and> progress (keys_of N P) (fst acc) (fst acc')"
proof -
  let ?K = "keys_of N P"
  let ?rs = "fst acc"
  let ?a2 = "drain_types idx acc"
  let ?rs2 = "fst ?a2"
  let ?rs4 = "fst acc'"
  have r': "drain_props idx ?a2 = Inr acc'" using r by (simp add: drain_step_def)
  note t = drain_types_effect[OF c f]
  note p = drain_props_effect[OF c conjunct1[OF t] r']
  have fit: "fits N P V ?rs4" using p by simp
  have "progress ?K ?rs ?rs4"
  proof (cases "workTypes ?rs = []")
    case True
    then have eq: "?a2 = acc" using t by simp
    show ?thesis
    proof (cases "workProps ?rs = []")
      case True
      then have "acc' = acc" using p eq by simp
      then show ?thesis using True \<open>workTypes ?rs = []\<close>
        by (simp add: progress_def queued_def)
    next
      case False
      then have "ext ?K (?rs\<lparr>workProps := []\<rparr>) ?rs4" using p eq by simp
      then obtain ks where "seen ?rs4 = seen ?rs @ ks" "set ks \<subseteq> ?K"
        "set ks \<inter> set (seen ?rs) = {}"
        "length (queued ?rs4) = length (queued (?rs\<lparr>workProps := []\<rparr>)) + length ks"
        unfolding ext_def by auto
      then show ?thesis using True unfolding progress_def
        by (intro exI[of _ ks]) (simp add: queued_def)
    qed
  next
    case False
    then have "ext ?K (?rs\<lparr>workTypes := []\<rparr>) ?rs2" using t by simp
    then obtain ks1 where k1: "seen ?rs2 = seen ?rs @ ks1" "set ks1 \<subseteq> ?K"
        "set ks1 \<inter> set (seen ?rs) = {}"
        "length (queued ?rs2) = length (workProps ?rs) + length ks1"
        "length (workProps ?rs) \<le> length (workProps ?rs2)"
      unfolding ext_def by (auto simp: queued_def)
    show ?thesis
    proof (cases "workProps ?rs2 = []")
      case True
      then have "acc' = ?a2" using p by simp
      moreover have "length (queued ?rs2) \<le> length ks1" using k1 True by simp
      ultimately show ?thesis using k1 unfolding progress_def
        by (intro exI[of _ ks1]) simp
    next
      case False
      then have "ext ?K (?rs2\<lparr>workProps := []\<rparr>) ?rs4" using p by simp
      then obtain ks2 where k2: "seen ?rs4 = seen ?rs2 @ ks2" "set ks2 \<subseteq> ?K"
        "set ks2 \<inter> set (seen ?rs2) = {}"
        "length (queued ?rs4) = length (workTypes ?rs2) + length ks2"
        unfolding ext_def by (auto simp: queued_def)
      have "length (workTypes ?rs2) \<le> length ks1" using k1 by (simp add: queued_def)
      then have "length (queued ?rs4) \<le> length (ks1 @ ks2)" using k2 by simp
      moreover have "seen ?rs4 = seen ?rs @ (ks1 @ ks2)" using k1 k2 by simp
      moreover have "set (ks1 @ ks2) \<subseteq> ?K" using k1 k2 by simp
      moreover have "set (ks1 @ ks2) \<inter> set (seen ?rs) = {}" using k1 k2 by auto
      ultimately show ?thesis unfolding progress_def by blast
    qed
  qed
  then show ?thesis using fit by simp
qed

lemma closedU_self: "closedU idx (unodes idx rs) (upreds idx rs) (uvals idx rs)"
proof -
  have 1: "NamedNode ` uvals idx rs \<subseteq> unodes idx rs"
    unfolding unodes_def by (rule Un_upper2)
  have "node_value ` stmt_nodes (queued rs) \<subseteq> uvals idx rs"
    unfolding uvals_def by blast
  moreover have "node_value ` NamedNode ` uvals idx rs \<subseteq> uvals idx rs"
    by (simp add: image_image)
  ultimately have 2: "node_value ` unodes idx rs \<subseteq> uvals idx rs"
    unfolding unodes_def image_Un by (rule Un_least)
  have 3: "idx_vals idx \<subseteq> uvals idx rs"
    unfolding uvals_def by (rule Un_upper2)
  have 4: "idx_preds idx \<subseteq> upreds idx rs"
    unfolding upreds_def by (rule Un_upper2)
  show ?thesis unfolding closedU_def using 1 2 3 4 by (intro conjI)
qed

lemma fits_self: "fits (unodes idx rs) (upreds idx rs) (uvals idx rs) rs"
proof -
  have "within (unodes idx rs) (upreds idx rs) x" if "x \<in> set (queued rs)" for x
  proof -
    have "subject x \<in> stmt_nodes (queued rs)" "object x \<in> stmt_nodes (queued rs)"
      using that by (simp_all add: stmt_nodes_def)
    moreover have "predicate x \<in> predicate ` set (queued rs)" using that by simp
    ultimately show ?thesis unfolding within_def unodes_def upreds_def by blast
  qed
  moreover have "node_value ` quad_nodes (rdfjsStore rs) \<subseteq> uvals idx rs"
    unfolding uvals_def by blast
  ultimately show ?thesis unfolding fits_def by blast
qed

lemma keys_of_mono:
  assumes "N' \<subseteq> N" "P' \<subseteq> P"
  shows "keys_of N' P' \<subseteq> keys_of N P"
proof -
  have "N' \<times> P' \<times> N' \<subseteq> N \<times> P \<times> N" using assms by blast
  then show ?thesis unfolding keys_of_def by (rule image_mono)
qed

lemma ukeys_fits:
  assumes c: "closedU idx N P V" and f: "fits N P V rs"
  shows "ukeys idx rs \<subseteq> keys_of N P"
proof -
  have cN: "NamedNode ` V \<subseteq> N" and cV: "node_value ` N \<subseteq> V"
    and cI: "idx_vals idx \<subseteq> V" and cP: "idx_preds idx \<subseteq> P"
    using c by (simp_all add: closedU_def)
  have w: "within N P x" if "x \<in> set (queued rs)" for x
    using f that by (simp add: fits_def)
  have st: "node_value ` quad_nodes (rdfjsStore rs) \<subseteq> V"
    using f by (simp add: fits_def)
  have q1: "stmt_nodes (queued rs) \<subseteq> N"
    using w by (auto simp: within_def stmt_nodes_def)
  have q2: "predicate ` set (queued rs) \<subseteq> P"
    using w by (auto simp: within_def)
  have "node_value ` stmt_nodes (queued rs) \<subseteq> V"
    using q1 cV by blast
  then have "uvals idx rs \<subseteq> V"
    unfolding uvals_def image_Un using st cI by blast
  then have "NamedNode ` uvals idx rs \<subseteq> N"
    using cN by blast
  then have "unodes idx rs \<subseteq> N" using q1 by (simp add: unodes_def)
  moreover have "upreds idx rs \<subseteq> P" using q2 cP by (simp add: upreds_def)
  ultimately show ?thesis unfolding ukeys_def by (rule keys_of_mono)
qed

lemma drain_step_decreases:
  assumes "workTypes (fst acc) \<noteq> [] \<or> workProps (fst acc) \<noteq> []"
    and r: "drain_step idx acc = Inr acc'"
  shows "((idx, acc'), (idx, acc)) \<in> measures
     [\<lambda>(idx, acc). card (ukeys idx (fst acc) - set (seen (fst acc))),
      \<lambda>(idx, acc). length (queued (fst acc))]"
proof -
  let ?rs = "fst acc"
  let ?rs' = "fst acc'"
  let ?K = "ukeys idx ?rs"
  have e: "fits (unodes idx ?rs) (upreds idx ?rs) (uvals idx ?rs) ?rs'
           \<and> progress ?K ?rs ?rs'"
    unfolding ukeys_def by (rule drain_step_effect[OF closedU_self fits_self r])
  have sub: "ukeys idx ?rs' \<subseteq> ?K"
    unfolding ukeys_def[of idx ?rs] by (rule ukeys_fits[OF closedU_self conjunct1[OF e]])
  from e obtain ks where ks: "seen ?rs' = seen ?rs @ ks" "set ks \<subseteq> ?K"
      "set ks \<inter> set (seen ?rs) = {}" "length (queued ?rs') \<le> length ks"
    unfolding progress_def by blast
  have fin: "finite (?K - set (seen ?rs))" by (simp add: finite_ukeys)
  show ?thesis
  proof (cases ks)
    case Nil
    then have "seen ?rs' = seen ?rs" "queued ?rs' = []" using ks by simp_all
    moreover have "ukeys idx ?rs' - set (seen ?rs) \<subseteq> ?K - set (seen ?rs)" using sub by auto
    then have "card (ukeys idx ?rs' - set (seen ?rs)) \<le> card (?K - set (seen ?rs))"
      using fin by (rule card_mono[rotated])
    moreover have "queued ?rs \<noteq> []" using assms by (simp add: queued_def)
    ultimately show ?thesis by auto
  next
    case (Cons k ks')
    then have "k \<in> ?K - set (seen ?rs)" "k \<in> set (seen ?rs')" using ks by auto
    then have "ukeys idx ?rs' - set (seen ?rs') \<subset> ?K - set (seen ?rs)"
      using sub ks(1) by auto
    then have "card (ukeys idx ?rs' - set (seen ?rs')) < card (?K - set (seen ?rs))"
      using fin by (rule psubset_card_mono[rotated])
    then show ?thesis by simp
  qed
qed

text \<open>
  The \<^verbatim>\<open>while (workTypes.length || workProps.length)\<close> loop of \<^verbatim>\<open>processQueues\<close>, with
  the \<^verbatim>\<open>progressed\<close> flag as the second component of the accumulator. A throw in a
  turn ends the loop with the state of that moment.
\<close>

function drain_loop :: "indices \<Rightarrow> run_state \<times> bool
    \<Rightarrow> (error \<times> run_state) + (run_state \<times> bool)" where
  "drain_loop idx acc =
     (if workTypes (fst acc) \<noteq> [] \<or> workProps (fst acc) \<noteq> []
      then (case drain_step idx acc of
              Inl e \<Rightarrow> Inl e
            | Inr acc' \<Rightarrow> drain_loop idx acc')
      else Inr acc)"
  by pat_completeness auto

termination drain_loop
proof (relation "measures
     [\<lambda>(idx, acc). card (ukeys idx (fst acc) - set (seen (fst acc))),
      \<lambda>(idx, acc). length (queued (fst acc))]")
  show "wf (measures
     [\<lambda>(idx, acc). card (ukeys idx (fst acc) - set (seen (fst acc))),
      \<lambda>(idx, acc). length (queued (fst acc))])"
    by simp
next
  fix idx :: indices and acc acc' :: "run_state \<times> bool"
  assume "workTypes (fst acc) \<noteq> [] \<or> workProps (fst acc) \<noteq> []"
    and "drain_step idx acc = Inr acc'"
  then show "((idx, acc'), (idx, acc)) \<in> measures
     [\<lambda>(idx, acc). card (ukeys idx (fst acc) - set (seen (fst acc))),
      \<lambda>(idx, acc). length (queued (fst acc))]"
    by (rule drain_step_decreases)
qed

section \<open>Seeding, the rule loop and the run\<close>

text \<open>\<^verbatim>\<open>processQueues()\<close> starts with \<^verbatim>\<open>progressed = false\<close>.\<close>

definition processQueues :: "indices \<Rightarrow> run_state
    \<Rightarrow> (error \<times> run_state) + (run_state \<times> bool)" where
  "processQueues idx rs = drain_loop idx (rs, False)"

text \<open>
  \<^verbatim>\<open>selectUnseen(stmts, seenNT)\<close>: the statements whose key is new in the batch and absent
  from the seen index, in order (\<^verbatim>\<open>$new\<close>; the other field of the result is not read by
  \<^verbatim>\<open>inferUntilStable\<close>).
\<close>

fun selectUnseen_loop :: "statement list \<Rightarrow> string list \<Rightarrow> string list \<Rightarrow> statement list \<Rightarrow> statement list" where
  "selectUnseen_loop [] seenNT batchSet uniq = uniq"
| "selectUnseen_loop (s # stmts) seenNT batchSet uniq =
     (let nt = toNT s
      in if nt \<in> set batchSet then selectUnseen_loop stmts seenNT batchSet uniq
         else selectUnseen_loop stmts seenNT (set_add batchSet nt)
                (if nt \<notin> set seenNT then uniq @ [s] else uniq))"

definition selectUnseen :: "statement list \<Rightarrow> string list \<Rightarrow> statement list" where
  "selectUnseen stmts seenNT = selectUnseen_loop stmts seenNT [] []"

text \<open>
  The body of the two seeding loops: the statement is added to the base graph, its quad
  to the overlay and to the shared store, its key to the seen index. The predicate is
  converted by \<^verbatim>\<open>asRdfjsPredicate\<close>, which throws when the value is not an absolute IRI;
  the base graph has the statement by then. The queues are not touched.
\<close>

definition seed_apply :: "run_state \<Rightarrow> statement \<Rightarrow> (error \<times> run_state) + run_state" where
  "seed_apply rs s =
     (let rs1 = rs\<lparr>baseGraph := graph_add (baseGraph rs) (st (subject s) (predicate s) (object s))\<rparr>
      in case asRdfjsPredicate (predicate s) ''NamedNode'' of
           Inl e \<Rightarrow> Inl (e, rs1)
         | Inr p \<Rightarrow>
             let q = \<lparr>q_subject = asRdfjsSubject (node_value (subject s)) (termType (subject s)),
                      q_predicate = p,
                      q_object = asRdfjsObject (node_value (object s)) (termType (object s))
                                   (node_lang (object s)) (node_datatype (object s)),
                      q_graph = None\<rparr>
             in Inr (rs1\<lparr>overlayStore := addQuad (overlayStore rs1) q,
                         rdfjsStore := addQuad (rdfjsStore rs1) q,
                         seen := set_add (seen rs1) (toNT s)\<rparr>))"

fun seed_apply_all :: "run_state \<Rightarrow> statement list \<Rightarrow> (error \<times> run_state) + run_state" where
  "seed_apply_all rs [] = Inr rs"
| "seed_apply_all rs (s # ss) =
     (case seed_apply rs s of Inl e \<Rightarrow> Inl e | Inr rs' \<Rightarrow> seed_apply_all rs' ss)"

text \<open>
  The seed block of \<^verbatim>\<open>inferUntilStable\<close>: the statements of the base graph are split by
  predicate once, the property lifts are selected and written, then the type lifts of the
  statements collected at the start.
\<close>

definition seed :: "indices \<Rightarrow> run_state \<Rightarrow> (error \<times> run_state) + run_state" where
  "seed idx rs =
     (let seedTypes = filter (\<lambda>s. predicate s = RDF_TYPE) (baseGraph rs);
          seedProps = filter (\<lambda>s. predicate s \<noteq> RDF_TYPE) (baseGraph rs);
          seededPropLifts = expandPropsWithClosure idx seedProps;
          seedPropUnseen = selectUnseen seededPropLifts (seen rs)
      in case seed_apply_all rs seedPropUnseen of
           Inl e \<Rightarrow> Inl e
         | Inr rs1 \<Rightarrow>
             let seededTypeLifts = expandTypesWithClosure idx seedTypes;
                 seedTypeUnseen = selectUnseen seededTypeLifts (seen rs1)
             in seed_apply_all rs1 seedTypeUnseen)"

text \<open>
  The SPARQL engine is outside the repository: it is a parameter, a function from the
  query text and the store to the quads of the result, or an error.
\<close>

type_synonym evaluator = "string \<Rightarrow> quad list \<Rightarrow> error + quad list"

text \<open>
  The conversion of a term of the store to a term of the graph, written inline in
  \<^verbatim>\<open>applyConstructWithComunica\<close> and again at the end of \<^verbatim>\<open>inferUntilStable\<close>: a named
  node through \<^verbatim>\<open>$rdf.sym\<close>, anything else in subject position through
  \<^verbatim>\<open>$rdf.blankNode\<close>. For a literal, \<^verbatim>\<open>$rdf.sym(q.object.datatype.value)\<close> is evaluated
  first (a term of the store always has a datatype); a language tag gives
  \<^verbatim>\<open>$rdf.literal(value, lang)\<close> (the tag is taken to have no colon), and without one
  \<^verbatim>\<open>$rdf.literal(value, undefined, dt)\<close> ignores its third argument, so that the result is
  a plain literal whatever the datatype was.
\<close>

definition subject_term :: "node \<Rightarrow> error + node" where
  "subject_term n = (case n of NamedNode v \<Rightarrow> sym v | _ \<Rightarrow> Inr (BlankNode (node_value n)))"

definition object_term :: "node \<Rightarrow> error + node" where
  "object_term n =
     (case n of
        NamedNode v \<Rightarrow> sym v
      | BlankNode b \<Rightarrow> Inr (BlankNode b)
      | Literal v l d \<Rightarrow>
          (case sym d of
             Inl e \<Rightarrow> Inl e
           | Inr dt \<Rightarrow> Inr (if l \<noteq> [] then Literal v l RDF_LANGSTRING else Literal v [] XSD_STRING)))"

text \<open>
  The data handler of \<^verbatim>\<open>applyConstructWithComunica(constructQuery, sharedStore)\<close>:
  subject, predicate, object and graph are converted in this order, a graph other than
  the default one through \<^verbatim>\<open>$rdf.sym\<close>. The statements are added to a fresh graph, whose
  statements are returned. A throw of \<^verbatim>\<open>$rdf.sym\<close> in the handler is reported as the
  failure of the rule.
\<close>

definition quad_statement :: "quad \<Rightarrow> error + statement" where
  "quad_statement q =
     (case subject_term (q_subject q) of
        Inl e \<Rightarrow> Inl e
      | Inr s \<Rightarrow>
          (case sym (q_predicate q) of
             Inl e \<Rightarrow> Inl e
           | Inr p \<Rightarrow>
               (case object_term (q_object q) of
                  Inl e \<Rightarrow> Inl e
                | Inr ob \<Rightarrow>
                    (case q_graph q of
                       None \<Rightarrow> Inr \<lparr>subject = s, predicate = node_value p, object = ob, why = None\<rparr>
                     | Some g \<Rightarrow>
                         (case sym g of
                            Inl e \<Rightarrow> Inl e
                          | Inr gn \<Rightarrow> Inr \<lparr>subject = s, predicate = node_value p, object = ob,
                                           why = Some (node_value gn)\<rparr>)))))"

definition applyConstructWithComunica :: "evaluator \<Rightarrow> string \<Rightarrow> quad list \<Rightarrow> error + statement list" where
  "applyConstructWithComunica queryQuads constructQuery store =
     (case queryQuads constructQuery store of
        Inl e \<Rightarrow> Inl e
      | Inr quads \<Rightarrow>
          (case each quad_statement quads of
             Inl e \<Rightarrow> Inl e
           | Inr stmts \<Rightarrow> Inr (foldl graph_add [] stmts)))"

text \<open>
  \<^verbatim>\<open>runRuleOnce(rule, baseGraph, sharedStore)\<close>. The test that
  \<^verbatim>\<open>applyConstructWithComunica\<close> is a function always succeeds, as the function is defined
  in the same file.
\<close>

definition runRuleOnce :: "evaluator \<Rightarrow> string \<Rightarrow> quad list \<Rightarrow> error + statement list" where
  "runRuleOnce queryQuads rule store =
     applyConstructWithComunica queryQuads (getConstructQueryForRule rule) store"

text \<open>The batch deduplication of the rule loop, by key.\<close>

fun batch_dedup :: "statement list \<Rightarrow> string list \<Rightarrow> statement list \<Rightarrow> statement list" where
  "batch_dedup [] batchNT batch = batch"
| "batch_dedup (s # newStmts) batchNT batch =
     (let nt = toNT s
      in if nt \<notin> set batchNT then batch_dedup newStmts (set_add batchNT nt) (batch @ [s])
         else batch_dedup newStmts batchNT batch)"

text \<open>
  One pass of \<^verbatim>\<open>for (const rule of rulesFiltered)\<close>, over the state, \<^verbatim>\<open>totalAdded\<close> and
  \<^verbatim>\<open>changed\<close>. An evaluator error leaves the pass with the state as it is, a throw
  while the queues are drained with the state the drain had reached.
\<close>

fun rule_pass :: "evaluator \<Rightarrow> indices \<Rightarrow> string list \<Rightarrow> run_state \<times> nat \<times> bool
    \<Rightarrow> (error \<times> run_state) + (run_state \<times> nat \<times> bool)" where
  "rule_pass queryQuads idx [] acc = Inr acc"
| "rule_pass queryQuads idx (rule # rules) (rs, totalAdded, changed) =
     (if getConstructQueryForRule rule = [] then rule_pass queryQuads idx rules (rs, totalAdded, changed)
      else case runRuleOnce queryQuads rule (rdfjsStore rs) of
             Inl e \<Rightarrow> Inl (e, rs)
           | Inr newStmts \<Rightarrow>
               let batch = batch_dedup newStmts [] [];
                   beforeSeenSize = length (seen rs);
                   rs1 = enqueue rs batch
               in case processQueues idx rs1 of
                    Inl e \<Rightarrow> Inl e
                  | Inr (rs2, progressed) \<Rightarrow>
                      let added = length (seen rs2) - beforeSeenSize
                      in if added > 0
                         then rule_pass queryQuads idx rules (rs2, totalAdded + added, True)
                         else rule_pass queryQuads idx rules (rs2, totalAdded, changed))"

text \<open>
  The \<^verbatim>\<open>while (changed)\<close> loop. Nothing in the code bounds the number of passes, so
  the loop is a partial function and \<open>None\<close> stands for a run that never returns.
\<close>

partial_function (option) outer_loop :: "evaluator \<Rightarrow> indices \<Rightarrow> string list \<Rightarrow> run_state \<times> nat
    \<Rightarrow> ((error \<times> run_state) + (run_state \<times> nat)) option" where
  "outer_loop queryQuads idx rules acc =
     (case rule_pass queryQuads idx
             (filter (\<lambda>r. r \<noteq> ''subclassof'' \<and> r \<noteq> ''subpropertyof'') rules)
             (fst acc, snd acc, False) of
        Inl e \<Rightarrow> Some (Inl e)
      | Inr (rs, totalAdded, changed) \<Rightarrow>
          if changed then outer_loop queryQuads idx rules (rs, totalAdded)
          else Some (Inr (rs, totalAdded)))"

declare outer_loop.simps [code]

text \<open>The conversion of an overlay quad to a statement of the returned overlay graph:
  subject, predicate, object, in this order; the graph is not read.\<close>

definition overlay_statement :: "quad \<Rightarrow> error + statement" where
  "overlay_statement q =
     (case subject_term (q_subject q) of
        Inl e \<Rightarrow> Inl e
      | Inr s \<Rightarrow>
          (case sym (q_predicate q) of
             Inl e \<Rightarrow> Inl e
           | Inr p \<Rightarrow>
               (case object_term (q_object q) of
                  Inl e \<Rightarrow> Inl e
                | Inr ob \<Rightarrow> Inr (st s (node_value p) ob))))"

text \<open>
  The state before seeding: the loaded graph, the keys of its statements, an empty
  overlay, the store built by \<^verbatim>\<open>formulaToRdfjsStore\<close>, and empty queues.
\<close>

definition initial_state :: "statement list \<Rightarrow> run_state" where
  "initial_state base =
     \<lparr>baseGraph = base, seen = foldl set_add [] (map toNT base), overlayStore = [],
      rdfjsStore = formulaToRdfjsStore base, workTypes = [], workProps = []\<rparr>"

text \<open>
  \<^verbatim>\<open>inferUntilStable(rules)\<close>, with the evaluator and the loaded graph as parameters. The
  result is the overlay graph and \<^verbatim>\<open>metrics.totalAdded\<close>; an error carries the state it
  left behind. The last step converts the overlay store to the overlay graph, and can
  throw as well.
\<close>

definition inferUntilStable :: "evaluator \<Rightarrow> string list \<Rightarrow> statement list
    \<Rightarrow> ((error \<times> run_state) + (statement list \<times> nat)) option" where
  "inferUntilStable queryQuads rules base =
     (let rs0 = initial_state base;
          idx = build_indices (rdfjsStore rs0)
      in case seed idx rs0 of
           Inl e \<Rightarrow> Some (Inl e)
         | Inr rs1 \<Rightarrow>
             (case outer_loop queryQuads idx rules (rs1, 0) of
                None \<Rightarrow> None
              | Some (Inl e) \<Rightarrow> Some (Inl e)
              | Some (Inr (rs2, totalAdded)) \<Rightarrow>
                  (case each overlay_statement (overlayStore rs2) of
                     Inl e \<Rightarrow> Some (Inl (e, rs2))
                   | Inr stmts \<Rightarrow> Some (Inr (foldl graph_add [] stmts, totalAdded)))))"



section \<open>Closure correctness\<close>

text \<open>The direct-edge relation of an edge map: \<open>(a, b)\<close> when \<open>b\<close> is in \<^verbatim>\<open>edges.get(a)\<close>.\<close>

definition edge_rel :: "('a \<times> 'a list) list \<Rightarrow> ('a \<times> 'a) set" where
  "edge_rel edges = {(a, b). \<exists>pp. map_of edges a = Some pp \<and> b \<in> set pp}"

lemma closure_loop_sound:
  "set (closure_loop edges stack seenLocal) \<subseteq> set seenLocal \<union> (edge_rel edges)\<^sup>* `` set stack"
proof (induction edges stack seenLocal rule: closure_loop.induct)
  case (1 edges seenLocal)
  then show ?case by simp
next
  case (2 edges p stack seenLocal)
  show ?case
  proof (cases "p \<in> set seenLocal")
    case True
    with 2 show ?thesis by auto
  next
    case False
    let ?push = "(case map_of edges p of None \<Rightarrow> [] | Some pp \<Rightarrow> rev pp)"
    have push: "set ?push \<subseteq> edge_rel edges `` {p}"
      by (cases "map_of edges p") (auto simp: edge_rel_def)
    have step: "closure_loop edges (p # stack) seenLocal
        = closure_loop edges (?push @ stack) (seenLocal @ [p])"
      using False by simp
    have mono: "(edge_rel edges)\<^sup>* `` set (?push @ stack)
          \<subseteq> set seenLocal \<union> (edge_rel edges)\<^sup>* `` set (p # stack)"
    proof
      fix y assume "y \<in> (edge_rel edges)\<^sup>* `` set (?push @ stack)"
      then obtain x where x: "x \<in> set ?push \<union> set stack" "(x, y) \<in> (edge_rel edges)\<^sup>*"
        by auto
      have "y \<in> (edge_rel edges)\<^sup>* `` set (p # stack)"
      proof (cases "x \<in> set stack")
        case True
        with x show ?thesis by auto
      next
        case False
        with x push have "(p, x) \<in> edge_rel edges" by auto
        with x have "(p, y) \<in> (edge_rel edges)\<^sup>*" by (meson converse_rtrancl_into_rtrancl)
        then show ?thesis by auto
      qed
      then show "y \<in> set seenLocal \<union> (edge_rel edges)\<^sup>* `` set (p # stack)" ..
    qed
    have old: "set (seenLocal @ [p])
        \<subseteq> set seenLocal \<union> (edge_rel edges)\<^sup>* `` set (p # stack)"
      by auto
    have "set (closure_loop edges (p # stack) seenLocal)
        \<subseteq> set (seenLocal @ [p]) \<union> (edge_rel edges)\<^sup>* `` set (?push @ stack)"
      unfolding step by (rule 2(2)[OF False])
    also have "\<dots> \<subseteq> set seenLocal \<union> (edge_rel edges)\<^sup>* `` set (p # stack)"
      using old mono by (rule Un_least)
    finally show ?thesis .
  qed
qed

lemma closure_loop_contains:
  "set seenLocal \<union> set stack \<subseteq> set (closure_loop edges stack seenLocal)"
proof (induction edges stack seenLocal rule: closure_loop.induct)
  case (1 edges seenLocal)
  then show ?case by simp
next
  case (2 edges p stack seenLocal)
  show ?case
  proof (cases "p \<in> set seenLocal")
    case True
    with 2 show ?thesis by auto
  next
    case False
    with 2(2)[OF False] show ?thesis by auto
  qed
qed

lemma closure_loop_closed:
  "\<forall>x \<in> set seenLocal. edge_rel edges `` {x} \<subseteq> set seenLocal \<union> set stack \<Longrightarrow>
   x \<in> set (closure_loop edges stack seenLocal) \<Longrightarrow>
   edge_rel edges `` {x} \<subseteq> set (closure_loop edges stack seenLocal)"
proof (induction edges stack seenLocal rule: closure_loop.induct)
  case (1 edges seenLocal)
  then show ?case by auto
next
  case (2 edges p stack seenLocal)
  show ?case
  proof (cases "p \<in> set seenLocal")
    case True
    have "\<forall>x \<in> set seenLocal. edge_rel edges `` {x} \<subseteq> set seenLocal \<union> set stack"
      using 2(3) True by auto
    with 2(1)[OF True] 2(4) True show ?thesis by simp
  next
    case False
    let ?push = "(case map_of edges p of None \<Rightarrow> [] | Some pp \<Rightarrow> rev pp)"
    have push: "edge_rel edges `` {p} \<subseteq> set ?push"
      by (auto simp: edge_rel_def split: option.splits)
    have "\<forall>x \<in> set (seenLocal @ [p]).
            edge_rel edges `` {x} \<subseteq> set (seenLocal @ [p]) \<union> set (?push @ stack)"
      using 2(3) push by auto
    with 2(2)[OF False] 2(4) False show ?thesis by simp
  qed
qed

lemma closure_loop_distinct:
  "distinct seenLocal \<Longrightarrow> distinct (closure_loop edges stack seenLocal)"
  by (induction edges stack seenLocal rule: closure_loop.induct) auto

lemma closure_loop_reachable:
  "set (closure_loop edges stack []) = (edge_rel edges)\<^sup>* `` set stack"
proof
  show "set (closure_loop edges stack []) \<subseteq> (edge_rel edges)\<^sup>* `` set stack"
    using closure_loop_sound[of edges stack "[]"] by simp
next
  let ?S = "set (closure_loop edges stack [])"
  have closed: "edge_rel edges `` {x} \<subseteq> ?S" if "x \<in> ?S" for x
    using closure_loop_closed[of "[]" edges stack x] that by simp
  have start: "set stack \<subseteq> ?S"
    using closure_loop_contains[of "[]" stack edges] by simp
  have "y \<in> ?S" if "(x, y) \<in> (edge_rel edges)\<^sup>*" "x \<in> ?S" for x y
    using that by (induction rule: rtrancl_induct) (use closed in auto)
  with start show "(edge_rel edges)\<^sup>* `` set stack \<subseteq> ?S" by auto
qed

lemma map_of_map_set:
  "map_of (map_set M k v) k' = (if k' = k then Some v else map_of M k')"
proof (cases "map_has M k")
  case False
  then show ?thesis by (auto simp: map_set_def map_has_def map_add_def split: option.splits)
next
  case True
  have "map_of (map (\<lambda>(a, b). if a = k then (a, v) else (a, b)) M) k'
        = (if k' = k \<and> map_of M k \<noteq> None then Some v else map_of M k')"
    by (induction M) auto
  with True show ?thesis by (auto simp: map_set_def map_has_def)
qed

lemma fst_map_set:
  "map fst (map_set M k v) = (if k \<in> set (map fst M) then map fst M else map fst M @ [k])"
proof -
  have "map fst (map (\<lambda>(a, b). if a = k then (a, v) else (a, b)) M) = map fst M"
    by (induction M) auto
  moreover have "map_has M k \<longleftrightarrow> k \<in> set (map fst M)"
    by (auto simp: map_has_def map_of_eq_None_iff)
  ultimately show ?thesis by (simp add: map_set_def)
qed

lemma foldl_map_set_lookup:
  "distinct (map fst es) \<Longrightarrow>
   map_of (foldl (\<lambda>closure (child, parents). map_set closure child (f parents)) acc es) k
   = (case map_of es k of Some ps \<Rightarrow> Some (f ps) | None \<Rightarrow> map_of acc k)"
proof (induction es arbitrary: acc)
  case Nil
  then show ?case by simp
next
  case (Cons e es)
  obtain c ps where e: "e = (c, ps)" by (cases e)
  from Cons.prems have d: "distinct (map fst es)" and c: "c \<notin> fst ` set es" by (auto simp: e)
  from c have none: "map_of es c = None" by (simp add: map_of_eq_None_iff)
  show ?case
    using Cons.IH[OF d, of "map_set acc c (f ps)"] none
    by (auto simp: e map_of_map_set split: option.splits)
qed

lemma foldl_map_set_keys:
  "distinct (map fst acc @ map fst es) \<Longrightarrow>
   map fst (foldl (\<lambda>closure (child, parents). map_set closure child (f parents)) acc es)
   = map fst acc @ map fst es"
proof (induction es arbitrary: acc)
  case Nil
  then show ?case by simp
next
  case (Cons e es)
  obtain c ps where e: "e = (c, ps)" by (cases e)
  from Cons.prems have "distinct (map fst (map_set acc c (f ps)) @ map fst es)"
    by (auto simp: e fst_map_set)
  from Cons.IH[OF this] Cons.prems show ?case
    by (auto simp: e fst_map_set)
qed

text \<open>
  C2. For an edge map (distinct keys, as a \<^verbatim>\<open>Map\<close> has), \<^verbatim>\<open>transitiveClosure\<close> returns a
  map with the same keys, and the set stored under a child is exactly the set of
  identifiers reachable from it by one or more edges; so the child is in its own closure
  exactly when it lies on a cycle. The function is total: \<open>closure_loop\<close> is defined with
  a termination proof that holds for cyclic maps too.
\<close>

theorem transitiveClosure_reachable:
  assumes "distinct (map fst edges)" and "map_of edges child = Some parents"
  shows "map fst (transitiveClosure edges) = map fst edges
    \<and> (\<exists>S. map_of (transitiveClosure edges) child = Some S
           \<and> distinct S
           \<and> set S = {y. (child, y) \<in> (edge_rel edges)\<^sup>+}
           \<and> (child \<in> set S \<longleftrightarrow> (child, child) \<in> (edge_rel edges)\<^sup>+))"
proof (intro conjI)
  show "map fst (transitiveClosure edges) = map fst edges"
    using foldl_map_set_keys[of "[]" edges "\<lambda>ps. closure_loop edges (rev ps) []"] assms(1)
    by (simp add: transitiveClosure_def)
next
  let ?S = "closure_loop edges (rev parents) []"
  have look: "map_of (transitiveClosure edges) child = Some ?S"
    using foldl_map_set_lookup[OF assms(1), of "\<lambda>ps. closure_loop edges (rev ps) []" "[]" child]
      assms(2)
    by (simp add: transitiveClosure_def)
  have direct: "edge_rel edges `` {child} = set parents"
    using assms(2) by (auto simp: edge_rel_def)
  have "set ?S = (edge_rel edges)\<^sup>* `` (edge_rel edges `` {child})"
    by (simp add: closure_loop_reachable direct)
  also have "\<dots> = {y. (child, y) \<in> (edge_rel edges)\<^sup>+}"
    by (auto simp: trancl_unfold_left relcomp_unfold)
  finally have reach: "set ?S = {y. (child, y) \<in> (edge_rel edges)\<^sup>+}" .
  have "distinct ?S" by (simp add: closure_loop_distinct)
  with look reach
  show "\<exists>S. map_of (transitiveClosure edges) child = Some S
             \<and> distinct S
             \<and> set S = {y. (child, y) \<in> (edge_rel edges)\<^sup>+}
             \<and> (child \<in> set S \<longleftrightarrow> (child, child) \<in> (edge_rel edges)\<^sup>+)"
    by auto
qed

text \<open>A two-class cycle: each class ends up in its own closure.\<close>

theorem transitiveClosure_reachable_witness:
  "distinct (map fst [(''A'', [''B'']), (''B'', [''A''])])
   \<and> map_of [(''A'', [''B'']), (''B'', [''A''])] ''A'' = Some [''B'']
   \<and> transitiveClosure [(''A'', [''B'']), (''B'', [''A''])]
       = [(''A'', [''B'', ''A'']), (''B'', [''A'', ''B''])]
   \<and> {y. (''A'', y) \<in> (edge_rel [(''A'', [''B'']), (''B'', [''A''])])\<^sup>+} = {''B'', ''A''}
   \<and> (''A'', ''A'') \<in> (edge_rel [(''A'', [''B'']), (''B'', [''A''])])\<^sup>+"
proof -
  let ?E = "[(''A'', [''B'']), (''B'', [''A''])]"
  have d: "distinct (map fst ?E)" by simp
  have m: "map_of ?E ''A'' = Some [''B'']" by simp
  have ev: "transitiveClosure ?E = [(''A'', [''B'', ''A'']), (''B'', [''A'', ''B''])]"
    by (simp add: transitiveClosure_def map_set_def map_has_def)
  from transitiveClosure_reachable[OF d m] obtain S where
    S: "map_of (transitiveClosure ?E) ''A'' = Some S"
       "set S = {y. (''A'', y) \<in> (edge_rel ?E)\<^sup>+}"
       "''A'' \<in> set S \<longleftrightarrow> (''A'', ''A'') \<in> (edge_rel ?E)\<^sup>+"
    by blast
  from S(1) have eq: "S = [''B'', ''A'']" by (simp add: ev)
  have r: "{y. (''A'', y) \<in> (edge_rel ?E)\<^sup>+} = {''B'', ''A''}"
    using S(2) by (simp add: eq)
  have "''A'' \<in> set S" by (simp add: eq)
  then have c: "(''A'', ''A'') \<in> (edge_rel ?E)\<^sup>+" using S(3) by blast
  show ?thesis using d m ev r c by (intro conjI)
qed


section \<open>Monotone growth of the run state\<close>

text \<open>
  No step of the run removes anything: the seen index only gets new keys appended, and
  the overlay, the shared store and the base graph only gain members.
\<close>

definition grows :: "run_state \<Rightarrow> run_state \<Rightarrow> bool" where
  "grows rs rs' =
     ((\<exists>ks. seen rs' = seen rs @ ks \<and> distinct ks \<and> set ks \<inter> set (seen rs) = {})
      \<and> set (overlayStore rs) \<subseteq> set (overlayStore rs')
      \<and> set (rdfjsStore rs) \<subseteq> set (rdfjsStore rs')
      \<and> set (baseGraph rs) \<subseteq> set (baseGraph rs'))"

lemma grows_refl: "grows rs rs"
  by (simp add: grows_def)

lemma grows_trans:
  assumes "grows a b" "grows b c"
  shows "grows a c"
proof -
  from assms obtain ks ks' where
    1: "seen b = seen a @ ks" "distinct ks" "set ks \<inter> set (seen a) = {}" and
    2: "seen c = seen b @ ks'" "distinct ks'" "set ks' \<inter> set (seen b) = {}"
    unfolding grows_def by blast
  have "seen c = seen a @ (ks @ ks')" using 1 2 by simp
  moreover have "distinct (ks @ ks')" using 1 2 by auto
  moreover have "set (ks @ ks') \<inter> set (seen a) = {}" using 1 2 by auto
  ultimately have "\<exists>ks. seen c = seen a @ ks \<and> distinct ks \<and> set ks \<inter> set (seen a) = {}"
    by blast
  moreover have "set (overlayStore a) \<subseteq> set (overlayStore c)"
    "set (rdfjsStore a) \<subseteq> set (rdfjsStore c)" "set (baseGraph a) \<subseteq> set (baseGraph c)"
    using assms unfolding grows_def by blast+
  ultimately show ?thesis unfolding grows_def by blast
qed

lemma grows_seen_length: "grows rs rs' \<Longrightarrow> length (seen rs) \<le> length (seen rs')"
  unfolding grows_def by auto

lemma grows_distinct: "grows rs rs' \<Longrightarrow> distinct (seen rs) \<Longrightarrow> distinct (seen rs')"
  unfolding grows_def by auto

lemma grows_clear_types: "grows rs (rs\<lparr>workTypes := []\<rparr>)"
  by (simp add: grows_def)

lemma grows_clear_props: "grows rs (rs\<lparr>workProps := []\<rparr>)"
  by (simp add: grows_def)

lemma enqueue_one_grows: "grows rs (enqueue_one rs s)"
proof (cases "toNT s \<in> set (seen rs)")
  case True
  then show ?thesis by (simp add: enqueue_one_def grows_refl)
next
  case False
  then have "seen (enqueue_one rs s) = seen rs @ [toNT s]"
    by (simp add: enqueue_one_def Let_def set_add_def)
  moreover have "set (overlayStore rs) \<subseteq> set (overlayStore (enqueue_one rs s))"
    "set (rdfjsStore rs) \<subseteq> set (rdfjsStore (enqueue_one rs s))"
    "set (baseGraph rs) \<subseteq> set (baseGraph (enqueue_one rs s))"
    by (auto simp: enqueue_one_def Let_def addQuad_def graph_add_def)
  ultimately show ?thesis using False unfolding grows_def by auto
qed

lemma enqueue_Cons: "enqueue rs (x # xs) = enqueue (enqueue_one rs x) xs"
  by (simp add: enqueue_def)

lemma enqueue_Nil: "enqueue rs [] = rs"
  by (simp add: enqueue_def)

lemma enqueue_grows: "grows rs (enqueue rs xs)"
proof (induction xs arbitrary: rs)
  case Nil
  show ?case by (simp add: enqueue_Nil grows_refl)
next
  case (Cons x xs)
  show ?case unfolding enqueue_Cons
    by (rule grows_trans[OF enqueue_one_grows Cons.IH])
qed

lemma enqueue_extra_grows: "grows (fst acc) (fst (enqueue_extra acc xs))"
  by (simp add: enqueue_extra_def grows_refl enqueue_grows)

lemma drain_types_grows: "grows (fst acc) (fst (drain_types idx acc))"
proof (cases "workTypes (fst acc) = []")
  case True
  then show ?thesis by (simp add: drain_types_def grows_refl)
next
  case False
  have "grows (fst acc) ((fst acc)\<lparr>workTypes := []\<rparr>)" by (rule grows_clear_types)
  moreover have "grows ((fst acc)\<lparr>workTypes := []\<rparr>)
      (fst (enqueue_extra ((fst acc)\<lparr>workTypes := []\<rparr>, snd acc)
             (expandTypesWithClosure idx (workTypes (fst acc)))))"
    using enqueue_extra_grows[of "((fst acc)\<lparr>workTypes := []\<rparr>, snd acc)"] by simp
  ultimately show ?thesis using False
    by (simp add: drain_types_def Let_def grows_trans)
qed

text \<open>The state a fallible step ends in, whether it returns or throws.\<close>

definition reached :: "(error \<times> run_state) + (run_state \<times> 'a) \<Rightarrow> run_state" where
  "reached r = (case r of Inl (e, rs) \<Rightarrow> rs | Inr (rs, x) \<Rightarrow> rs)"

lemma reached_Inl [simp]: "reached (Inl (e, rs)) = rs"
  by (simp add: reached_def)

lemma reached_Inr [simp]: "reached (Inr acc) = fst acc"
  by (cases acc) (simp add: reached_def)

lemma drain_props_grows: "grows (fst acc) (reached (drain_props idx acc))"
proof (cases "workProps (fst acc) = []")
  case True
  then show ?thesis by (simp add: drain_props_idle grows_refl)
next
  case False
  define a0 where "a0 = ((fst acc)\<lparr>workProps := []\<rparr>, snd acc)"
  have 0: "grows (fst acc) (fst a0)" by (simp add: a0_def grows_clear_props)
  show ?thesis
  proof (cases "drain_props idx acc")
    case (Inl x)
    obtain e rs' where x: "x = (e, rs')" by (cases x)
    from drain_props_Inl[OF Inl[unfolded x]] have "rs' = fst a0" by (simp add: a0_def)
    then show ?thesis using 0 by (simp add: Inl x)
  next
    case (Inr acc')
    from drain_props_Inr[OF Inr False] obtain e2 e4 where
      "acc' = enqueue_extra (enqueue_extra (enqueue_extra (enqueue_extra a0
          (expandPropsWithClosure idx (workProps (fst acc)))) e2)
          (applyDomainRange idx (workProps (fst acc)))) e4"
      unfolding a0_def by blast
    then have "grows (fst acc) (fst acc')"
      using grows_trans[OF grows_trans[OF grows_trans[OF grows_trans[OF 0
          enqueue_extra_grows] enqueue_extra_grows] enqueue_extra_grows] enqueue_extra_grows]
      by simp
    then show ?thesis by (simp add: Inr)
  qed
qed

lemma drain_step_grows: "grows (fst acc) (reached (drain_step idx acc))"
  unfolding drain_step_def by (rule grows_trans[OF drain_types_grows drain_props_grows])

lemma drain_loop_unfold:
  "drain_loop idx acc =
     (if workTypes (fst acc) \<noteq> [] \<or> workProps (fst acc) \<noteq> []
      then (case drain_step idx acc of Inl e \<Rightarrow> Inl e | Inr acc' \<Rightarrow> drain_loop idx acc')
      else Inr acc)"
  by (subst drain_loop.simps) simp

declare drain_loop.simps [simp del]

lemma drain_loop_grows: "grows (fst acc) (reached (drain_loop idx acc))"
proof (induction idx acc rule: drain_loop.induct)
  case (1 idx acc)
  show ?case
  proof (cases "workTypes (fst acc) \<noteq> [] \<or> workProps (fst acc) \<noteq> []")
    case True
    show ?thesis
    proof (cases "drain_step idx acc")
      case (Inl x)
      then have "drain_loop idx acc = Inl x" using True by (subst drain_loop_unfold) simp
      then show ?thesis using drain_step_grows[of acc idx] by (simp add: Inl)
    next
      case (Inr acc')
      then have "drain_loop idx acc = drain_loop idx acc'"
        using True by (subst drain_loop_unfold) simp
      moreover have "grows (fst acc) (fst acc')" using drain_step_grows[of acc idx] by (simp add: Inr)
      ultimately show ?thesis using grows_trans 1[OF True Inr] by simp
    qed
  next
    case False
    then have "drain_loop idx acc = Inr acc" by (subst drain_loop_unfold) simp
    then show ?thesis by (simp add: grows_refl)
  qed
qed

lemma drain_loop_empty:
  "drain_loop idx acc = Inr acc' \<Longrightarrow> workTypes (fst acc') = [] \<and> workProps (fst acc') = []"
proof (induction idx acc rule: drain_loop.induct)
  case (1 idx acc)
  show ?case
  proof (cases "workTypes (fst acc) \<noteq> [] \<or> workProps (fst acc) \<noteq> []")
    case True
    with "1.prems" obtain a where a: "drain_step idx acc = Inr a" and "drain_loop idx a = Inr acc'"
      by (subst (asm) drain_loop_unfold) (auto split: sum.splits)
    then show ?thesis using "1.IH"[OF True a] by simp
  next
    case False
    then have "acc' = acc" using "1.prems" by (subst (asm) drain_loop_unfold) simp
    then show ?thesis using False by simp
  qed
qed

lemma processQueues_grows: "grows rs (reached (processQueues idx rs))"
  using drain_loop_grows[of "(rs, False)" idx] by (simp add: processQueues_def)

section \<open>Inverse and symmetric properties\<close>

lemma map_get_map_ensure: "map_get (map_ensure M a) k = map_get M k"
  by (auto simp: map_get_def map_ensure_def map_has_def map_add_def split: option.splits)

lemma map_has_map_ensure: "map_has (map_ensure M a) k \<longleftrightarrow> k = a \<or> map_has M k"
  by (auto simp: map_ensure_def map_has_def map_add_def split: option.splits)

lemma map_of_map_get_add:
  "map_of (map_get_add M a b) k =
     (if k = a then map_option (\<lambda>vs. set_add vs b) (map_of M a) else map_of M k)"
  by (induction M a b rule: map_get_add.induct) auto

lemma map_has_map_get_add: "map_has (map_get_add M a b) k \<longleftrightarrow> map_has M k"
  by (auto simp: map_has_def map_of_map_get_add)

lemma set_set_add: "set (set_add xs x) = insert x (set xs)"
  by (auto simp: set_add_def)

lemma set_map_get_add:
  "map_has M a \<Longrightarrow>
   set (map_get (map_get_add M a b) k) = (if k = a then insert b (set (map_get M a)) else set (map_get M k))"
  by (auto simp: map_get_def map_has_def map_of_map_get_add set_set_add split: option.splits)

lemma inverse_step_get:
  "set (map_get (inverse_step M q) k) =
     set (map_get M k)
     \<union> (if k = node_value (q_subject q) then {node_value (q_object q)} else {})
     \<union> (if k = node_value (q_object q) then {node_value (q_subject q)} else {})"
proof -
  define p where "p = node_value (q_subject q)"
  define inv where "inv = node_value (q_object q)"
  define M2 where "M2 = map_ensure (map_ensure M p) inv"
  define M3 where "M3 = map_get_add M2 p inv"
  have h2: "map_has M2 p" "map_has M2 inv" by (simp_all add: M2_def map_has_map_ensure)
  have h3: "map_has M3 inv" by (simp add: M3_def map_has_map_get_add h2)
  have g2: "map_get M2 k = map_get M k" for k by (simp add: M2_def map_get_map_ensure)
  have "inverse_step M q = map_get_add M3 inv p"
    by (simp add: inverse_step_def Let_def M3_def M2_def p_def inv_def)
  then have "set (map_get (inverse_step M q) k)
      = (if k = inv then insert p (set (map_get M3 inv)) else set (map_get M3 k))"
    by (simp add: set_map_get_add[OF h3])
  also have "\<dots> = set (map_get M k) \<union> (if k = p then {inv} else {}) \<union> (if k = inv then {p} else {})"
    by (auto simp: M3_def set_map_get_add[OF h2(1)] g2)
  finally show ?thesis by (simp add: p_def inv_def)
qed

definition sym_map :: "('a \<times> 'a list) list \<Rightarrow> bool" where
  "sym_map M = (\<forall>p q. q \<in> set (map_get M p) \<longleftrightarrow> p \<in> set (map_get M q))"

lemma sym_map_empty: "sym_map []"
  by (simp add: sym_map_def map_get_def)

lemma sym_map_inverse_step: "sym_map M \<Longrightarrow> sym_map (inverse_step M q)"
  unfolding sym_map_def inverse_step_get by auto

lemma sym_map_foldl: "sym_map M \<Longrightarrow> sym_map (foldl inverse_step M qs)"
  by (induction qs arbitrary: M) (auto simp: sym_map_inverse_step)

lemma build_inversePairs_sym: "sym_map (build_inversePairs store)"
  by (simp add: build_inversePairs_def Let_def sym_map_foldl sym_map_empty)

lemma foldl_inverse_step_get:
  "set (map_get (foldl inverse_step M qs) k) =
     set (map_get M k)
     \<union> {node_value (q_object q) | q. q \<in> set qs \<and> node_value (q_subject q) = k}
     \<union> {node_value (q_subject q) | q. q \<in> set qs \<and> node_value (q_object q) = k}"
  by (induction qs arbitrary: M) (auto simp: inverse_step_get)

lemma build_inversePairs_get:
  "set (map_get (build_inversePairs store) p) =
        {node_value (q_object x) | x. x \<in> set (getQuads store None (Some OWL_INV) None)
                                      \<and> node_value (q_subject x) = p}
        \<union> {node_value (q_subject x) | x. x \<in> set (getQuads store None (Some OWL_INV) None)
                                      \<and> node_value (q_object x) = p}"
proof -
  have e: "set (map_get ([] :: (string \<times> string list) list) k) = {}" for k
    by (simp add: map_get_def)
  show ?thesis
    unfolding build_inversePairs_def Let_def foldl_inverse_step_get e by auto
qed

lemma set_foldl_set_add: "set (foldl set_add xs ys) = set xs \<union> set ys"
  by (induction ys arbitrary: xs) (auto simp: set_set_add)

lemma symmetricProps_declared:
  "set (symmetricProps (build_indices store)) =
     {node_value (q_subject x) | x.
        x \<in> set store \<and> q_predicate x = RDF_TYPE \<and> q_object x = NamedNode OWL_SYM}"
  by (auto simp: build_indices_def set_foldl_set_add getQuads_def)

lemma transitiveProps_declared:
  "set (transitiveProps (build_indices store)) =
     {node_value (q_subject x) | x.
        x \<in> set store \<and> q_predicate x = RDF_TYPE \<and> q_object x = NamedNode OWL_TRANS}"
  by (auto simp: build_indices_def set_foldl_set_add getQuads_def)

text \<open>
  An input with an inverse property expression: the blank node \<open>_:b0\<close> is declared the
  inverse of \<open>urn:p\<close>, and the rule \<^verbatim>\<open>inverse\<close> returns \<open>(x, p, y)\<close>.
\<close>

definition inverse_base :: "statement list" where
  "inverse_base = [st (BlankNode ''b0'') OWL_INV (NamedNode ''urn:p'')]"

definition inverse_result :: statement where
  "inverse_result = st (NamedNode ''urn:x'') ''urn:p'' (NamedNode ''urn:y'')"

definition inverse_result_quad :: quad where
  "inverse_result_quad = \<lparr>q_subject = NamedNode ''urn:x'', q_predicate = ''urn:p'',
                            q_object = NamedNode ''urn:y'', q_graph = None\<rparr>"

definition inverse_evaluator :: evaluator where
  "inverse_evaluator q store = Inr [inverse_result_quad]"

text \<open>The state in which the run on that input ends: the rule's result is written, its
  queue entry is gone, nothing was derived from it.\<close>

definition inverse_aborted :: run_state where
  "inverse_aborted =
     \<lparr>baseGraph = inverse_base @ [inverse_result],
      seen = map toNT (inverse_base @ [inverse_result]),
      overlayStore = [inverse_result_quad],
      rdfjsStore = formulaToRdfjsStore inverse_base @ [inverse_result_quad],
      workTypes = [], workProps = []\<rparr>"

text \<open>
  C5. The claim has \<^verbatim>\<open>applyInverseAndSymmetric\<close> emit \<open>(y, inv, x)\<close> for every \<open>inv\<close> in
  \<^verbatim>\<open>inversePairs.get(p)\<close>. The map holds the \<^verbatim>\<open>.value\<close> of both ends of every
  \<^verbatim>\<open>owl:inverseOf\<close> quad, whatever kind of term they are, and the expander builds the
  predicate with an unguarded \<^verbatim>\<open>$rdf.sym(inv)\<close>, where its three siblings test
  \<^verbatim>\<open>isAbsoluteIri\<close> first and skip. With the blank node \<open>_:b0\<close> declared the inverse of
  \<open>urn:p\<close>, the expander throws on the batch \<open>(x, p, y)\<close> and the whole run aborts. The rest
  of the claim holds: when the expander returns, it returns the statements of the claim
  (lemma \<open>applyInverseAndSymmetric_set\<close>); the map is symmetric and holds exactly the two
  directions of the store's \<^verbatim>\<open>owl:inverseOf\<close> quads; the symmetric properties are those the
  store declares.
\<close>

theorem applyInverseAndSymmetric_throws:
  "map_get (inversePairs (build_indices (formulaToRdfjsStore inverse_base))) ''urn:p'' = [''b0'']
   \<and> applyInverseAndSymmetric (build_indices (formulaToRdfjsStore inverse_base)) [inverse_result]
       = Inl (InvalidIri ''b0'')
   \<and> inferUntilStable inverse_evaluator [''inverse''] inverse_base
       = Some (Inl (InvalidIri ''b0'', inverse_aborted))
   \<and> (q \<in> set (map_get (build_inversePairs store) p)
        \<longleftrightarrow> p \<in> set (map_get (build_inversePairs store) q))
   \<and> inversePairs (build_indices store) = build_inversePairs store
   \<and> set (map_get (build_inversePairs store) p) =
        {node_value (q_object x) | x. x \<in> set (getQuads store None (Some OWL_INV) None)
                                      \<and> node_value (q_subject x) = p}
        \<union> {node_value (q_subject x) | x. x \<in> set (getQuads store None (Some OWL_INV) None)
                                      \<and> node_value (q_object x) = p}
   \<and> set (symmetricProps (build_indices store)) =
        {node_value (q_subject x) | x.
           x \<in> set store \<and> q_predicate x = RDF_TYPE \<and> q_object x = NamedNode OWL_SYM}"
proof (intro conjI)
  show "map_get (inversePairs (build_indices (formulaToRdfjsStore inverse_base))) ''urn:p''
        = [''b0'']"
    by code_simp
  show "applyInverseAndSymmetric (build_indices (formulaToRdfjsStore inverse_base))
          [inverse_result] = Inl (InvalidIri ''b0'')"
    by code_simp
  show "inferUntilStable inverse_evaluator [''inverse''] inverse_base
       = Some (Inl (InvalidIri ''b0'', inverse_aborted))"
    by code_simp
  show "q \<in> set (map_get (build_inversePairs store) p)
        \<longleftrightarrow> p \<in> set (map_get (build_inversePairs store) q)"
    using build_inversePairs_sym[of store] unfolding sym_map_def by blast
  show "inversePairs (build_indices store) = build_inversePairs store"
    by (simp add: build_indices_def)
  show "set (map_get (build_inversePairs store) p) =
        {node_value (q_object x) | x. x \<in> set (getQuads store None (Some OWL_INV) None)
                                      \<and> node_value (q_subject x) = p}
        \<union> {node_value (q_subject x) | x. x \<in> set (getQuads store None (Some OWL_INV) None)
                                      \<and> node_value (q_object x) = p}"
    by (rule build_inversePairs_get)
  show "set (symmetricProps (build_indices store)) =
        {node_value (q_subject x) | x.
           x \<in> set store \<and> q_predicate x = RDF_TYPE \<and> q_object x = NamedNode OWL_SYM}"
    by (rule symmetricProps_declared)
qed

section \<open>Transitive properties\<close>

definition idx_p_transitive :: indices where
  "idx_p_transitive = \<lparr>classSupers = [], propSupers = [], domainMap = [], rangeMap = [],
     symmetricProps = [], transitiveProps = [''urn:p''], inversePairs = []\<rparr>"

text \<open>
  C4. The claim has \<^verbatim>\<open>applyTransitiveProps\<close> emit \<open>(x, p, z)\<close> for every \<open>(y, p, z)\<close> of the
  working set. The far end of the matched quad enters the new statement through
  \<^verbatim>\<open>$rdf.sym(term.value)\<close>, whatever kind of term it is. With \<open>(a, p, b)\<close> in the batch and
  \<open>(b, p, _:c)\<close> in the store, \<open>z\<close> a blank node, the expander throws; with the literal
  \<open>"x:y"\<close> for \<open>z\<close> it emits \<open>(a, p, <x:y>)\<close>, a named node, and not \<open>(a, p, "x:y")\<close>. For
  named nodes the emitted statements are those of the claim (lemma
  \<open>applyTransitiveProps_set\<close>), and the transitive properties are those the store declares.
\<close>

theorem applyTransitiveProps_blank_node:
  "applyTransitiveProps idx_p_transitive
      [\<lparr>q_subject = NamedNode ''urn:b'', q_predicate = ''urn:p'',
        q_object = BlankNode ''c'', q_graph = None\<rparr>]
      [st (NamedNode ''urn:a'') ''urn:p'' (NamedNode ''urn:b'')]
   = Inl (InvalidIri ''c'')
   \<and> applyTransitiveProps idx_p_transitive
      [\<lparr>q_subject = NamedNode ''urn:b'', q_predicate = ''urn:p'',
        q_object = Literal ''x:y'' [] XSD_STRING, q_graph = None\<rparr>]
      [st (NamedNode ''urn:a'') ''urn:p'' (NamedNode ''urn:b'')]
   = Inr [st (NamedNode ''urn:a'') ''urn:p'' (NamedNode ''x:y'')]
   \<and> st (NamedNode ''urn:a'') ''urn:p'' (NamedNode ''x:y'')
       \<noteq> st (NamedNode ''urn:a'') ''urn:p'' (Literal ''x:y'' [] XSD_STRING)
   \<and> set (transitiveProps (build_indices store)) =
        {node_value (q_subject x) | x.
           x \<in> set store \<and> q_predicate x = RDF_TYPE \<and> q_object x = NamedNode OWL_TRANS}"
proof (intro conjI)
  show "applyTransitiveProps idx_p_transitive
      [\<lparr>q_subject = NamedNode ''urn:b'', q_predicate = ''urn:p'',
        q_object = BlankNode ''c'', q_graph = None\<rparr>]
      [st (NamedNode ''urn:a'') ''urn:p'' (NamedNode ''urn:b'')]
   = Inl (InvalidIri ''c'')"
    by code_simp
  show "applyTransitiveProps idx_p_transitive
      [\<lparr>q_subject = NamedNode ''urn:b'', q_predicate = ''urn:p'',
        q_object = Literal ''x:y'' [] XSD_STRING, q_graph = None\<rparr>]
      [st (NamedNode ''urn:a'') ''urn:p'' (NamedNode ''urn:b'')]
   = Inr [st (NamedNode ''urn:a'') ''urn:p'' (NamedNode ''x:y'')]"
    by code_simp
  show "st (NamedNode ''urn:a'') ''urn:p'' (NamedNode ''x:y'')
       \<noteq> st (NamedNode ''urn:a'') ''urn:p'' (Literal ''x:y'' [] XSD_STRING)"
    by (simp add: st_def)
  show "set (transitiveProps (build_indices store)) =
        {node_value (q_subject x) | x.
           x \<in> set store \<and> q_predicate x = RDF_TYPE \<and> q_object x = NamedNode OWL_TRANS}"
    by (rule transitiveProps_declared)
qed

section \<open>Unknown rule identifiers\<close>

lemma PREFIXES_nonempty: "PREFIXES \<noteq> []"
  by (simp add: PREFIXES_def)

lemma getConstructQueryForRule_nonempty: "getConstructQueryForRule rule \<noteq> []"
  by (simp add: getConstructQueryForRule_def PREFIXES_nonempty)

definition rejecting_evaluator :: evaluator where
  "rejecting_evaluator q store =
     (if q = PREFIXES then Inl (EvaluatorError ''parse error'') else Inr [])"

text \<open>
  C9. The claim has an unknown rule identifier cause no evaluator call and no abort. The
  guard \<^verbatim>\<open>if (!constructQuery) continue\<close> never fires, because the query of an unknown
  identifier is the non-empty \<^verbatim>\<open>PREFIXES\<close> text: the evaluator is called with it, and when
  the evaluator rejects that query the run aborts, where the same run without the unknown
  identifier completes.
\<close>

theorem unknown_rule_reaches_evaluator:
  "getConstructQueryForRule ''foo'' = PREFIXES
   \<and> PREFIXES \<noteq> []
   \<and> inferUntilStable rejecting_evaluator [''foo''] []
       = Some (Inl (EvaluatorError ''parse error'', initial_state []))
   \<and> inferUntilStable rejecting_evaluator [] [] = Some (Inr ([], 0))"
proof (intro conjI)
  show "getConstructQueryForRule ''foo'' = PREFIXES"
    by (simp add: getConstructQueryForRule_def RULES_def Object_prototype_def)
  show "PREFIXES \<noteq> []" by (rule PREFIXES_nonempty)
  show "inferUntilStable rejecting_evaluator [''foo''] []
       = Some (Inl (EvaluatorError ''parse error'', initial_state []))"
    by code_simp
  show "inferUntilStable rejecting_evaluator [] [] = Some (Inr ([], 0))"
    by code_simp
qed

section \<open>The statement key\<close>

lemma toNT_cong:
  "subject a = subject b \<Longrightarrow> predicate a = predicate b \<Longrightarrow> object a = object b \<Longrightarrow>
   toNT a = toNT b"
  by (simp add: toNT_def)

lemma enqueue_one_seen_key: "toNT s \<in> set (seen (enqueue_one rs s))"
  by (simp add: enqueue_one_def Let_def set_add_def)

lemma enqueue_one_closed: "toNT s \<in> set (seen rs) \<Longrightarrow> enqueue_one rs s = rs"
  by (simp add: enqueue_one_def)

text \<open>
  C6. Two statements that agree on subject, predicate and object have the same key,
  whatever their contexts; so when both are candidates, \<^verbatim>\<open>enqueue\<close> materializes one of
  them only (the second changes nothing: the seen index and the overlay grow by at most
  one), and \<^verbatim>\<open>selectUnseen\<close> keeps at most one.
\<close>

theorem key_ignores_context:
  assumes "subject a = subject b" "predicate a = predicate b" "object a = object b"
  shows "toNT a = toNT b
    \<and> enqueue rs [a, b] = enqueue rs [a]
    \<and> length (seen (enqueue rs [a, b])) \<le> length (seen rs) + 1
    \<and> length (overlayStore (enqueue rs [a, b])) \<le> length (overlayStore rs) + 1
    \<and> length (selectUnseen [a, b] seenNT) \<le> 1"
proof -
  have k: "toNT a = toNT b" using assms by (rule toNT_cong)
  have "toNT b \<in> set (seen (enqueue_one rs a))"
    using enqueue_one_seen_key[of a rs] k by simp
  then have e: "enqueue rs [a, b] = enqueue rs [a]"
    by (simp add: enqueue_def enqueue_one_closed)
  have l1: "length (seen (enqueue rs [a])) \<le> length (seen rs) + 1"
    by (simp add: enqueue_def enqueue_one_def Let_def set_add_def)
  have l2: "length (overlayStore (enqueue rs [a])) \<le> length (overlayStore rs) + 1"
    by (simp add: enqueue_def enqueue_one_def Let_def addQuad_def)
  have l3: "length (selectUnseen [a, b] seenNT) \<le> 1"
    by (simp add: selectUnseen_def Let_def k set_add_def)
  show ?thesis using k e l1 l2 l3 by simp
qed

text \<open>The same triple in the default graph and in a named graph.\<close>

theorem key_ignores_context_witness:
  "toNT \<lparr>subject = NamedNode ''urn:x'', predicate = ''urn:p'', object = NamedNode ''urn:y'',
          why = None\<rparr>
   = toNT \<lparr>subject = NamedNode ''urn:x'', predicate = ''urn:p'', object = NamedNode ''urn:y'',
          why = Some ''urn:g''\<rparr>
   \<and> toNT \<lparr>subject = NamedNode ''urn:x'', predicate = ''urn:p'', object = NamedNode ''urn:y'',
          why = Some ''urn:g''\<rparr> = ''<urn:x> <urn:p> <urn:y> .''
   \<and> overlayStore (enqueue (initial_state [])
        [\<lparr>subject = NamedNode ''urn:x'', predicate = ''urn:p'', object = NamedNode ''urn:y'',
          why = None\<rparr>,
         \<lparr>subject = NamedNode ''urn:x'', predicate = ''urn:p'', object = NamedNode ''urn:y'',
          why = Some ''urn:g''\<rparr>])
     = [\<lparr>q_subject = NamedNode ''urn:x'', q_predicate = ''urn:p'',
         q_object = NamedNode ''urn:y'', q_graph = None\<rparr>]"
proof -
  let ?a = "\<lparr>subject = NamedNode ''urn:x'', predicate = ''urn:p'', object = NamedNode ''urn:y'',
          why = None\<rparr>"
  let ?b = "\<lparr>subject = NamedNode ''urn:x'', predicate = ''urn:p'', object = NamedNode ''urn:y'',
          why = Some ''urn:g''\<rparr>"
  have h: "subject ?a = subject ?b" "predicate ?a = predicate ?b" "object ?a = object ?b"
    by simp_all
  note t = key_ignores_context[OF h, of "initial_state []" "[]"]
  have 1: "toNT ?a = toNT ?b" using t by simp
  have 2: "toNT ?b = ''<urn:x> <urn:p> <urn:y> .''" by (simp add: toNT_def)
  have "enqueue (initial_state []) [?a, ?b] = enqueue (initial_state []) [?a]"
    using t by simp
  moreover have "overlayStore (enqueue (initial_state []) [?a])
     = [\<lparr>q_subject = NamedNode ''urn:x'', q_predicate = ''urn:p'',
         q_object = NamedNode ''urn:y'', q_graph = None\<rparr>]"
    by (simp add: enqueue_def enqueue_one_def Let_def initial_state_def toNT_def addQuad_def)
  ultimately show ?thesis using 1 2 by simp
qed


section \<open>The rule loop\<close>

text \<open>
  What one rule does to the state once the evaluator has answered: the batch is
  deduplicated, enqueued, and the queues are drained. Every identifier has a non-empty
  query, so the first branch of \<open>rule_pass\<close> is never taken.
\<close>

definition after_rule :: "indices \<Rightarrow> run_state \<Rightarrow> statement list
    \<Rightarrow> (error \<times> run_state) + (run_state \<times> bool)" where
  "after_rule idx rs newStmts = processQueues idx (enqueue rs (batch_dedup newStmts [] []))"

lemma rule_pass_Cons:
  "rule_pass ev idx (rule # rules) (rs, t, c) =
     (case runRuleOnce ev rule (rdfjsStore rs) of
        Inl e \<Rightarrow> Inl (e, rs)
      | Inr newStmts \<Rightarrow>
          (case after_rule idx rs newStmts of
             Inl e \<Rightarrow> Inl e
           | Inr acc \<Rightarrow>
               rule_pass ev idx rules
                 (fst acc,
                  t + (length (seen (fst acc)) - length (seen rs)),
                  c \<or> length (seen rs) < length (seen (fst acc)))))"
  by (auto simp: getConstructQueryForRule_nonempty after_rule_def Let_def split: sum.splits)

declare rule_pass.simps(2) [simp del]

lemma rule_pass_Cons_Inr:
  assumes "rule_pass ev idx (rule # rules) (rs, t, c) = Inr res"
  shows "\<exists>newStmts ra b.
      runRuleOnce ev rule (rdfjsStore rs) = Inr newStmts
    \<and> after_rule idx rs newStmts = Inr (ra, b)
    \<and> rule_pass ev idx rules
        (ra, t + (length (seen ra) - length (seen rs)), c \<or> length (seen rs) < length (seen ra))
       = Inr res"
  using assms unfolding rule_pass_Cons by (auto split: sum.splits)

lemma after_rule_grows: "grows rs (reached (after_rule idx rs newStmts))"
  unfolding after_rule_def by (rule grows_trans[OF enqueue_grows processQueues_grows])

lemma after_rule_Inr_grows: "after_rule idx rs newStmts = Inr (ra, b) \<Longrightarrow> grows rs ra"
  using after_rule_grows[of rs idx newStmts] by simp


section \<open>The drain loop empties both queues\<close>

text \<open>
  C7. \<^verbatim>\<open>processQueues\<close> is a total function (its loop \<open>drain_loop\<close> is defined with a
  termination proof that holds from every state, over the finite set of keys derivable
  from the state): every call ends, by returning or by the throw of an expander. When it
  returns, both the type queue and the property queue are empty. Hence both queues are
  empty once a rule of the outer loop has been processed, whatever the rule returned and
  whatever state it started from.
\<close>

theorem processQueues_drains:
  "(processQueues idx rs = Inr acc \<longrightarrow> workTypes (fst acc) = [] \<and> workProps (fst acc) = [])
   \<and> (after_rule idx rs newStmts = Inr acc' \<longrightarrow>
        workTypes (fst acc') = [] \<and> workProps (fst acc') = [])"
  using drain_loop_empty[of idx "(rs, False)" acc]
    drain_loop_empty[of idx "(enqueue rs (batch_dedup newStmts [] []), False)" acc']
  unfolding after_rule_def processQueues_def by blast

lemma rule_pass_Inr:
  "rule_pass ev idx rules (rs, t, c) = Inr (rs', t', c') \<Longrightarrow>
   grows rs rs' \<and> t' + length (seen rs) = t + length (seen rs')
   \<and> (c' \<longleftrightarrow> c \<or> length (seen rs) < length (seen rs'))"
proof (induction rules arbitrary: rs t c)
  case Nil
  then show ?case by (simp add: grows_refl)
next
  case (Cons rule rules)
  from rule_pass_Cons_Inr[OF Cons.prems] obtain newStmts rs2 b where
    r: "runRuleOnce ev rule (rdfjsStore rs) = Inr newStmts" and
    a: "after_rule idx rs newStmts = Inr (rs2, b)" and
    p: "rule_pass ev idx rules
          (rs2, t + (length (seen rs2) - length (seen rs)),
           c \<or> length (seen rs) < length (seen rs2)) = Inr (rs', t', c')"
    by blast
  have g: "grows rs rs2" using a by (rule after_rule_Inr_grows)
  have le: "length (seen rs) \<le> length (seen rs2)" using g by (rule grows_seen_length)
  from Cons.IH[OF p] have
    ih: "grows rs2 rs'"
        "t' + length (seen rs2) = t + (length (seen rs2) - length (seen rs)) + length (seen rs')"
        "c' \<longleftrightarrow> (c \<or> length (seen rs) < length (seen rs2)) \<or> length (seen rs2) < length (seen rs')"
    by simp_all
  have le2: "length (seen rs2) \<le> length (seen rs')" using ih(1) by (rule grows_seen_length)
  have "grows rs rs'" using g ih(1) by (rule grows_trans)
  moreover have "t' + length (seen rs) = t + length (seen rs')" using ih(2) le by simp
  moreover have "c' \<longleftrightarrow> c \<or> length (seen rs) < length (seen rs')" using ih(3) le le2 by auto
  ultimately show ?case by simp
qed

lemma rule_pass_Inl:
  "rule_pass ev idx rules (rs, t, c) = Inl (e, rs') \<Longrightarrow> grows rs rs'"
proof (induction rules arbitrary: rs t c)
  case Nil
  then show ?case by simp
next
  case (Cons rule rules)
  show ?case
  proof (cases "runRuleOnce ev rule (rdfjsStore rs)")
    case (Inl e')
    then have "rs' = rs" using Cons.prems by (simp add: rule_pass_Cons)
    then show ?thesis by (simp add: grows_refl)
  next
    case r: (Inr newStmts)
    show ?thesis
    proof (cases "after_rule idx rs newStmts")
      case (Inl x)
      then have "x = (e, rs')" using Cons.prems by (simp add: rule_pass_Cons r)
      then show ?thesis using after_rule_grows[of rs idx newStmts] by (simp add: Inl)
    next
      case (Inr acc)
      then have "rule_pass ev idx rules
          (fst acc, t + (length (seen (fst acc)) - length (seen rs)),
           c \<or> length (seen rs) < length (seen (fst acc))) = Inl (e, rs')"
        using Cons.prems by (simp add: rule_pass_Cons r)
      from Cons.IH[OF this] have "grows (fst acc) rs'" .
      moreover have "grows rs (fst acc)" using after_rule_grows[of rs idx newStmts] by (simp add: Inr)
      ultimately show ?thesis using grows_trans by blast
    qed
  qed
qed


lemma rule_pass_append:
  "rule_pass ev idx (xs @ ys) acc =
     (case rule_pass ev idx xs acc of Inl e \<Rightarrow> Inl e | Inr acc' \<Rightarrow> rule_pass ev idx ys acc')"
proof (induction xs arbitrary: acc)
  case Nil
  show ?case by simp
next
  case (Cons x xs)
  obtain rs t c where acc: "acc = (rs, t, c)" by (cases acc)
  show ?case
    unfolding acc append_Cons rule_pass_Cons
    by (simp add: Cons.IH split: sum.splits)
qed

abbreviation evaluator_rules :: "string list \<Rightarrow> string list" where
  "evaluator_rules rules \<equiv> filter (\<lambda>r. r \<noteq> ''subclassof'' \<and> r \<noteq> ''subpropertyof'') rules"

lemma outer_loop_unfold:
  "outer_loop ev idx rules (rs, t) =
     (case rule_pass ev idx (evaluator_rules rules) (rs, t, False) of
        Inl e \<Rightarrow> Some (Inl e)
      | Inr (rs', t', changed) \<Rightarrow>
          if changed then outer_loop ev idx rules (rs', t') else Some (Inr (rs', t')))"
  by (subst outer_loop.simps) simp


definition run_ok :: "evaluator \<Rightarrow> indices \<Rightarrow> string list \<Rightarrow> run_state \<times> nat
    \<Rightarrow> (error \<times> run_state) + (run_state \<times> nat) \<Rightarrow> bool" where
  "run_ok ev idx rules acc res =
     (case res of
        Inl (e, rs') \<Rightarrow> grows (fst acc) rs'
      | Inr (rs', t') \<Rightarrow>
          grows (fst acc) rs' \<and> t' + length (seen (fst acc)) = snd acc + length (seen rs')
          \<and> (\<exists>rsL tL. rule_pass ev idx (evaluator_rules rules) (rsL, tL, False)
                          = Inr (rs', t', False)))"

lemma outer_loop_run_ok:
  assumes "outer_loop ev idx rules acc = Some res"
  shows "run_ok ev idx rules acc res"
proof (rule outer_loop.raw_induct[where P = run_ok, OF _ assms])
  fix f :: "evaluator \<Rightarrow> indices \<Rightarrow> string list \<Rightarrow> run_state \<times> nat
      \<Rightarrow> ((error \<times> run_state) + (run_state \<times> nat)) option"
  fix ev idx rules acc res
  assume IH: "\<And>ev idx rules acc res. f ev idx rules acc = Some res \<Longrightarrow> run_ok ev idx rules acc res"
  assume eq: "(case rule_pass ev idx (evaluator_rules rules) (fst acc, snd acc, False) of
      Inl e \<Rightarrow> Some (Inl e)
      | Inr (rs, totalAdded, changed) \<Rightarrow>
          if changed then f ev idx rules (rs, totalAdded)
          else Some (Inr (rs, totalAdded))) = Some res"
  show "run_ok ev idx rules acc res"
  proof (cases "rule_pass ev idx (evaluator_rules rules) (fst acc, snd acc, False)")
    case (Inl x)
    obtain e rs' where x: "x = (e, rs')" by (cases x)
    have "res = Inl (e, rs')" using eq Inl x by simp
    moreover have "grows (fst acc) rs'" using rule_pass_Inl Inl x by blast
    ultimately show ?thesis by (simp add: run_ok_def)
  next
    case (Inr y)
    obtain rs' t' c' where y: "y = (rs', t', c')" by (cases y)
    note p = rule_pass_Inr[OF Inr[unfolded y]]
    show ?thesis
    proof (cases c')
      case True
      then have "f ev idx rules (rs', t') = Some res" using eq Inr y by simp
      from IH[OF this] have ih: "run_ok ev idx rules (rs', t') res" .
      show ?thesis
      proof (cases res)
        case (Inl a)
        then show ?thesis using ih p grows_trans
          by (auto simp: run_ok_def split: prod.splits)
      next
        case (Inr b)
        obtain rs2 t2 where b: "b = (rs2, t2)" by (cases b)
        from ih have g: "grows rs' rs2" and
          t: "t2 + length (seen rs') = t' + length (seen rs2)" and
          l: "\<exists>rsL tL. rule_pass ev idx (evaluator_rules rules) (rsL, tL, False)
                          = Inr (rs2, t2, False)"
          by (simp_all add: run_ok_def Inr b)
        have "grows (fst acc) rs2" using p g grows_trans by blast
        moreover have "t2 + length (seen (fst acc)) = snd acc + length (seen rs2)"
          using p t by simp
        ultimately show ?thesis using l by (simp add: run_ok_def Inr b)
      qed
    next
      case False
      then have "res = Inr (rs', t')" using eq Inr y by simp
      moreover have "rule_pass ev idx (evaluator_rules rules) (fst acc, snd acc, False)
            = Inr (rs', t', False)" using Inr y False by simp
      ultimately show ?thesis using p by (auto simp: run_ok_def)
    qed
  qed
qed

lemma seed_apply_grows:
  "seed_apply rs s = Inr rs' \<Longrightarrow> grows rs rs'"
  "seed_apply rs s = Inl (e, rs') \<Longrightarrow> grows rs rs'"
  by (auto simp: seed_apply_def Let_def grows_def set_add_def addQuad_def graph_add_def
      split: sum.splits if_splits)

section \<open>Seeding\<close>

text \<open>The quad a seed lift is written as, once \<^verbatim>\<open>asRdfjsPredicate\<close> has accepted the
  predicate.\<close>

definition seed_quad :: "statement \<Rightarrow> quad" where
  "seed_quad s =
     \<lparr>q_subject = asRdfjsSubject (node_value (subject s)) (termType (subject s)),
      q_predicate = normalizeIriString (predicate s),
      q_object = asRdfjsObject (node_value (object s)) (termType (object s))
                   (node_lang (object s)) (node_datatype (object s)),
      q_graph = None\<rparr>"

lemma seed_apply_Inr:
  "seed_apply rs s = Inr rs' \<Longrightarrow>
   rs' = rs\<lparr>baseGraph := graph_add (baseGraph rs) (st (subject s) (predicate s) (object s)),
             overlayStore := addQuad (overlayStore rs) (seed_quad s),
             rdfjsStore := addQuad (rdfjsStore rs) (seed_quad s),
             seen := set_add (seen rs) (toNT s)\<rparr>"
  by (auto simp: seed_apply_def Let_def seed_quad_def asRdfjsPredicate_def
      split: sum.splits if_splits)

lemma seed_apply_all_grows:
  "seed_apply_all rs xs = Inr rs' \<Longrightarrow> grows rs rs'"
proof (induction xs arbitrary: rs)
  case Nil
  then show ?case by (simp add: grows_refl)
next
  case (Cons x xs)
  then obtain rs1 where 1: "seed_apply rs x = Inr rs1" and 2: "seed_apply_all rs1 xs = Inr rs'"
    by (auto split: sum.splits)
  show ?case using seed_apply_grows(1)[OF 1] Cons.IH[OF 2] by (rule grows_trans)
qed

lemma seed_apply_all_grows_Inl:
  "seed_apply_all rs xs = Inl (e, rs') \<Longrightarrow> grows rs rs'"
proof (induction xs arbitrary: rs)
  case Nil
  then show ?case by simp
next
  case (Cons x xs)
  show ?case
  proof (cases "seed_apply rs x")
    case (Inl a)
    then show ?thesis using Cons.prems seed_apply_grows(2) by auto
  next
    case (Inr rs1)
    then have "seed_apply_all rs1 xs = Inl (e, rs')" using Cons.prems by simp
    from Cons.IH[OF this] seed_apply_grows(1)[OF Inr] show ?thesis
      using grows_trans by blast
  qed
qed

definition seed_written :: "run_state \<Rightarrow> statement \<Rightarrow> bool" where
  "seed_written rs s =
     (toNT s \<in> set (seen rs) \<and> seed_quad s \<in> set (overlayStore rs)
      \<and> seed_quad s \<in> set (rdfjsStore rs)
      \<and> st (subject s) (predicate s) (object s) \<in> set (baseGraph rs))"

lemma seed_written_grows: "grows rs rs' \<Longrightarrow> seed_written rs s \<Longrightarrow> seed_written rs' s"
  unfolding grows_def seed_written_def by auto

lemma seed_apply_written: "seed_apply rs s = Inr rs' \<Longrightarrow> seed_written rs' s"
  by (drule seed_apply_Inr) (simp add: seed_written_def set_add_def addQuad_def graph_add_def)

lemma seed_apply_queues:
  "seed_apply rs s = Inr rs' \<Longrightarrow> workTypes rs' = workTypes rs \<and> workProps rs' = workProps rs"
  by (drule seed_apply_Inr) simp

lemma seed_apply_all_written:
  "seed_apply_all rs xs = Inr rs' \<Longrightarrow> s \<in> set xs \<Longrightarrow> seed_written rs' s"
proof (induction xs arbitrary: rs)
  case Nil
  then show ?case by simp
next
  case (Cons x xs)
  then obtain rs1 where 1: "seed_apply rs x = Inr rs1" and 2: "seed_apply_all rs1 xs = Inr rs'"
    by (auto split: sum.splits)
  show ?case
  proof (cases "s \<in> set xs")
    case True
    then show ?thesis using Cons.IH[OF 2] by simp
  next
    case False
    then have "s = x" using Cons.prems(2) by simp
    then have "seed_written rs1 s" using seed_apply_written[OF 1] by simp
    then show ?thesis using seed_written_grows[OF seed_apply_all_grows[OF 2]] by simp
  qed
qed

lemma seed_apply_all_queues:
  "seed_apply_all rs xs = Inr rs' \<Longrightarrow> workTypes rs' = workTypes rs \<and> workProps rs' = workProps rs"
proof (induction xs arbitrary: rs)
  case Nil
  then show ?case by simp
next
  case (Cons x xs)
  then obtain rs1 where 1: "seed_apply rs x = Inr rs1" and 2: "seed_apply_all rs1 xs = Inr rs'"
    by (auto split: sum.splits)
  show ?case using seed_apply_queues[OF 1] Cons.IH[OF 2] by simp
qed

text \<open>The lists \<^verbatim>\<open>seedPropUnseen\<close> and \<^verbatim>\<open>seedTypeUnseen\<close> of the source: the second is
  filtered against the seen index as the property lifts left it.\<close>

definition seedPropUnseen :: "indices \<Rightarrow> run_state \<Rightarrow> statement list" where
  "seedPropUnseen idx rs =
     selectUnseen (expandPropsWithClosure idx (filter (\<lambda>s. predicate s \<noteq> RDF_TYPE) (baseGraph rs)))
       (seen rs)"

definition seedTypeUnseen :: "indices \<Rightarrow> run_state \<Rightarrow> run_state \<Rightarrow> statement list" where
  "seedTypeUnseen idx rs rs1 =
     selectUnseen (expandTypesWithClosure idx (filter (\<lambda>s. predicate s = RDF_TYPE) (baseGraph rs)))
       (seen rs1)"

lemma seed_unfold:
  "seed idx rs =
     (case seed_apply_all rs (seedPropUnseen idx rs) of
        Inl e \<Rightarrow> Inl e
      | Inr rs1 \<Rightarrow> seed_apply_all rs1 (seedTypeUnseen idx rs rs1))"
  by (auto simp: seed_def Let_def seedPropUnseen_def seedTypeUnseen_def split: sum.splits)

lemma seed_Inr:
  assumes "seed idx rs = Inr rs'"
  shows "\<exists>rs1. seed_apply_all rs (seedPropUnseen idx rs) = Inr rs1
           \<and> seed_apply_all rs1 (seedTypeUnseen idx rs rs1) = Inr rs'"
  using assms unfolding seed_unfold by (auto split: sum.splits)

lemma seed_grows: "seed idx rs = Inr rs' \<Longrightarrow> grows rs rs'"
  by (drule seed_Inr) (auto intro: grows_trans seed_apply_all_grows)

lemma seed_grows_Inl: "seed idx rs = Inl (e, rs') \<Longrightarrow> grows rs rs'"
  unfolding seed_unfold
  by (auto split: sum.splits intro: grows_trans seed_apply_all_grows seed_apply_all_grows_Inl)

lemma seed_queues:
  "seed idx rs = Inr rs' \<Longrightarrow> workTypes rs' = workTypes rs \<and> workProps rs' = workProps rs"
proof -
  assume "seed idx rs = Inr rs'"
  from seed_Inr[OF this] obtain rs1 where
    1: "seed_apply_all rs (seedPropUnseen idx rs) = Inr rs1" and
    2: "seed_apply_all rs1 (seedTypeUnseen idx rs rs1) = Inr rs'" by blast
  show ?thesis using seed_apply_all_queues[OF 1] seed_apply_all_queues[OF 2] by simp
qed

text \<open>The statement an overlay quad becomes, when its conversion does not throw.\<close>

definition overlay_of :: "quad \<Rightarrow> statement" where
  "overlay_of q = projr (overlay_statement q)"

lemma inferUntilStable_Inr:
  assumes "inferUntilStable ev rules base = Some (Inr (overlay, totalAdded))"
  shows "\<exists>rs1 rs2.
      seed (build_indices (formulaToRdfjsStore base)) (initial_state base) = Inr rs1
    \<and> outer_loop ev (build_indices (formulaToRdfjsStore base)) rules (rs1, 0)
        = Some (Inr (rs2, totalAdded))
    \<and> each overlay_statement (overlayStore rs2) = Inr (map overlay_of (overlayStore rs2))
    \<and> overlay = foldl graph_add [] (map overlay_of (overlayStore rs2))"
proof -
  let ?idx = "build_indices (formulaToRdfjsStore base)"
  from assms obtain rs1 rs2 stmts where
    s: "seed ?idx (initial_state base) = Inr rs1" and
    o: "outer_loop ev ?idx rules (rs1, 0) = Some (Inr (rs2, totalAdded))" and
    e: "each overlay_statement (overlayStore rs2) = Inr stmts" and
    v: "overlay = foldl graph_add [] stmts"
    by (auto simp: inferUntilStable_def Let_def initial_state_def split: sum.splits option.splits)
  have "stmts = map overlay_of (overlayStore rs2)"
    using each_Inr(1)[OF e] by (simp add: overlay_of_def)
  then show ?thesis using s o e v by blast
qed

section \<open>A small run\<close>

text \<open>
  Class \<open>A\<close> is a subclass of \<open>B\<close> and \<open>x\<close> is an \<open>A\<close>: seeding lifts \<open>x\<close> to \<open>B\<close>.
\<close>

definition example_base :: "statement list" where
  "example_base =
     [st (NamedNode ''urn:A'') RDFS_SC (NamedNode ''urn:B''),
      st (NamedNode ''urn:x'') RDF_TYPE (NamedNode ''urn:A'')]"

definition example_lift :: statement where
  "example_lift = st (NamedNode ''urn:x'') RDF_TYPE (NamedNode ''urn:B'')"

definition example_lift_quad :: quad where
  "example_lift_quad = \<lparr>q_subject = NamedNode ''urn:x'', q_predicate = RDF_TYPE,
     q_object = NamedNode ''urn:B'', q_graph = None\<rparr>"

definition example_seeded :: run_state where
  "example_seeded =
     \<lparr>baseGraph = example_base @ [example_lift],
      seen = map toNT (example_base @ [example_lift]),
      overlayStore = [example_lift_quad],
      rdfjsStore = map formula_quad example_base @ [example_lift_quad],
      workTypes = [], workProps = []\<rparr>"

lemma example_indices:
  "build_indices (formulaToRdfjsStore example_base) =
     \<lparr>classSupers = [(''urn:A'', [''urn:B''])], propSupers = [], domainMap = [], rangeMap = [],
      symmetricProps = [], transitiveProps = [], inversePairs = []\<rparr>"
  by code_simp

lemma example_seed:
  "seed (build_indices (formulaToRdfjsStore example_base)) (initial_state example_base)
   = Inr example_seeded"
  by code_simp

text \<open>A further member of \<open>A\<close> enqueued after seeding: the drain loop lifts it to \<open>B\<close> and
  leaves both queues empty.\<close>

definition example_member :: statement where
  "example_member = st (NamedNode ''urn:y'') RDF_TYPE (NamedNode ''urn:A'')"

definition example_queued :: run_state where
  "example_queued = enqueue example_seeded [example_member]"

definition example_drained :: run_state where
  "example_drained =
     \<lparr>baseGraph = example_base @ [example_lift, example_member,
                     st (NamedNode ''urn:y'') RDF_TYPE (NamedNode ''urn:B'')],
      seen = map toNT (example_base @ [example_lift, example_member,
                     st (NamedNode ''urn:y'') RDF_TYPE (NamedNode ''urn:B'')]),
      overlayStore = map formula_quad [example_lift, example_member,
                     st (NamedNode ''urn:y'') RDF_TYPE (NamedNode ''urn:B'')],
      rdfjsStore = map formula_quad (example_base @ [example_lift, example_member,
                     st (NamedNode ''urn:y'') RDF_TYPE (NamedNode ''urn:B'')]),
      workTypes = [], workProps = []\<rparr>"

lemma example_drain:
  "workTypes example_queued = [example_member]"
  "processQueues (build_indices (formulaToRdfjsStore example_base)) example_queued
     = Inr (example_drained, True)"
  by code_simp+

theorem processQueues_drains_witness:
  "workTypes example_queued \<noteq> []
   \<and> processQueues (build_indices (formulaToRdfjsStore example_base)) example_queued
       = Inr (example_drained, True)
   \<and> after_rule (build_indices (formulaToRdfjsStore example_base)) example_queued [example_member]
       = Inr (example_drained, True)
   \<and> workTypes (fst (example_drained, True)) = []
   \<and> workProps (fst (example_drained, True)) = []"
proof -
  let ?idx = "build_indices (formulaToRdfjsStore example_base)"
  have a: "after_rule ?idx example_queued [example_member] = Inr (example_drained, True)"
    by code_simp
  from processQueues_drains[of ?idx example_queued "(example_drained, True)" "[example_member]"
      "(example_drained, True)"] example_drain(2) a
  have "workTypes (fst (example_drained, True)) = [] \<and> workProps (fst (example_drained, True)) = []"
    by blast
  then show ?thesis using example_drain a by simp
qed

section \<open>Evaluator failure\<close>

text \<open>The states at which a pass of the outer loop starts: the seeded state, and the
  state a pass that changed something ended in.\<close>

inductive pass_start :: "evaluator \<Rightarrow> indices \<Rightarrow> string list \<Rightarrow> run_state \<times> nat \<Rightarrow> run_state \<times> nat \<Rightarrow> bool"
  for ev idx rules a where
    first_pass: "pass_start ev idx rules a a"
  | next_pass: "pass_start ev idx rules a b \<Longrightarrow>
       rule_pass ev idx (evaluator_rules rules) (fst b, snd b, False) = Inr (rs', t', True) \<Longrightarrow>
       pass_start ev idx rules a (rs', t')"

lemma pass_start_outer_loop:
  "pass_start ev idx rules a b \<Longrightarrow> outer_loop ev idx rules a = outer_loop ev idx rules b"
proof (induction rule: pass_start.induct)
  case first_pass
  show ?case by simp
next
  case (next_pass b rs' t')
  have "outer_loop ev idx rules b = outer_loop ev idx rules (rs', t')"
    using next_pass(2) by (subst outer_loop.simps) simp
  with next_pass(3) show ?case by simp
qed

lemma pass_start_grows:
  "pass_start ev idx rules a b \<Longrightarrow> grows (fst a) (fst b)"
proof (induction rule: pass_start.induct)
  case first_pass
  show ?case by (rule grows_refl)
next
  case (next_pass b rs' t')
  from rule_pass_Inr[OF next_pass(2)] have "grows (fst b) rs'" by simp
  with next_pass(3) show ?case using grows_trans by auto
qed

lemma initial_state_store: "rdfjsStore (initial_state base) = formulaToRdfjsStore base"
  by (simp add: initial_state_def)

text \<open>
  C8. If, in any pass of the outer loop, the evaluator rejects the query of a rule after
  the rules before it in that pass were processed, the run returns that error at once,
  together with the state as it was when the evaluator was called: nothing later runs (no
  retry), and the state holds everything the run had added until then (the seen index of
  the initial state is a prefix of its seen index; overlay, shared store and base graph
  contain the initial ones).
\<close>

theorem evaluator_error_propagates:
  assumes seeded: "seed (build_indices (formulaToRdfjsStore base)) (initial_state base) = Inr rs0"
    and passes: "pass_start ev (build_indices (formulaToRdfjsStore base)) rules (rs0, 0) (rs, tot)"
    and split: "evaluator_rules rules = passed @ rule # rest"
    and before: "rule_pass ev (build_indices (formulaToRdfjsStore base)) passed (rs, tot, False)
                   = Inr (rs1, total1, changed1)"
    and fail: "ev (getConstructQueryForRule rule) (rdfjsStore rs1) = Inl e"
  shows "inferUntilStable ev rules base = Some (Inl (e, rs1))
         \<and> grows (initial_state base) rs1"
proof -
  let ?idx = "build_indices (formulaToRdfjsStore base)"
  have r: "runRuleOnce ev rule (rdfjsStore rs1) = Inl e"
    using fail by (simp add: runRuleOnce_def applyConstructWithComunica_def)
  have "rule_pass ev ?idx (rule # rest) (rs1, total1, changed1) = Inl (e, rs1)"
    by (simp add: rule_pass_Cons r)
  then have p: "rule_pass ev ?idx (evaluator_rules rules) (rs, tot, False) = Inl (e, rs1)"
    unfolding split rule_pass_append before by simp
  have "outer_loop ev ?idx rules (rs, tot) = Some (Inl (e, rs1))"
    by (subst outer_loop.simps) (simp add: p)
  then have o: "outer_loop ev ?idx rules (rs0, 0) = Some (Inl (e, rs1))"
    using pass_start_outer_loop[OF passes] by simp
  have 1: "inferUntilStable ev rules base = Some (Inl (e, rs1))"
    by (simp add: inferUntilStable_def Let_def initial_state_store seeded o)
  have "grows (initial_state base) rs0" using seeded by (rule seed_grows)
  moreover have "grows rs0 rs" using pass_start_grows[OF passes] by simp
  moreover have "grows rs rs1" using rule_pass_Inr[OF before] by simp
  ultimately have 2: "grows (initial_state base) rs1" using grows_trans by blast
  show ?thesis using 1 2 by simp
qed

text \<open>An evaluator that rejects every query: the run on the small example aborts at the
  first rule with the seed lift still in the overlay.\<close>

definition failing_evaluator :: evaluator where
  "failing_evaluator q store = Inl (EvaluatorError ''rejected'')"

theorem evaluator_error_propagates_witness:
  "inferUntilStable failing_evaluator [''domain''] example_base
     = Some (Inl (EvaluatorError ''rejected'', example_seeded))
   \<and> overlayStore example_seeded = [example_lift_quad]
   \<and> grows (initial_state example_base) example_seeded"
proof -
  let ?idx = "build_indices (formulaToRdfjsStore example_base)"
  have a: "pass_start failing_evaluator ?idx [''domain''] (example_seeded, 0) (example_seeded, 0)"
    by (rule first_pass)
  have b: "evaluator_rules [''domain''] = [] @ ''domain'' # []" by simp
  have c: "rule_pass failing_evaluator ?idx [] (example_seeded, 0, False)
             = Inr (example_seeded, 0, False)" by simp
  have d: "failing_evaluator (getConstructQueryForRule ''domain'') (rdfjsStore example_seeded)
             = Inl (EvaluatorError ''rejected'')" by (simp add: failing_evaluator_def)
  have "overlayStore example_seeded = [example_lift_quad]" by (simp add: example_seeded_def)
  with evaluator_error_propagates[OF example_seed a b c d] show ?thesis by simp
qed

section \<open>What \<^verbatim>\<open>totalAdded\<close> counts\<close>

lemma set_foldl_graph_add: "set (foldl graph_add g xs) = set g \<union> set xs"
  by (induction xs arbitrary: g) (auto simp: graph_add_def)

lemma distinct_foldl_graph_add: "distinct g \<Longrightarrow> distinct (foldl graph_add g xs)"
  by (induction xs arbitrary: g) (auto simp: graph_add_def)

lemma seed_written_overlay:
  assumes "seed_written rs s"
    and "each overlay_statement (overlayStore rs) = Inr (map overlay_of (overlayStore rs))"
    and "overlay = foldl graph_add [] (map overlay_of (overlayStore rs))"
  shows "overlay_statement (seed_quad s) = Inr (overlay_of (seed_quad s))
         \<and> overlay_of (seed_quad s) \<in> set overlay"
proof -
  have q: "seed_quad s \<in> set (overlayStore rs)" using assms(1) by (simp add: seed_written_def)
  have "overlay_statement (seed_quad s) = Inr (overlay_of (seed_quad s))"
    using each_Inr(2)[OF assms(2) q] by (simp add: overlay_of_def)
  moreover have "overlay_of (seed_quad s) \<in> set overlay"
    using q by (simp add: assms(3) set_foldl_graph_add)
  ultimately show ?thesis by simp
qed

definition silent_evaluator :: evaluator where
  "silent_evaluator q store = Inr []"

lemma example_silent_run:
  "inferUntilStable silent_evaluator [] example_base = Some (Inr ([example_lift], 0))"
  by code_simp

text \<open>
  C10. In a run that completes, every statement lifted during seeding (the lists
  \<^verbatim>\<open>seedPropUnseen\<close> and \<^verbatim>\<open>seedTypeUnseen\<close>) is in the seen index, the overlay store, the
  shared store and the base graph after seeding and at the end, and the statement its
  quad is converted to is in the returned overlay; \<^verbatim>\<open>totalAdded\<close> is the number of keys
  the seen index gained after seeding, so the seed lifts are not counted. There is a run whose overlay has more statements than
  \<^verbatim>\<open>totalAdded\<close> reports.
\<close>

theorem seed_lifts_not_counted:
  assumes "inferUntilStable ev rules base = Some (Inr (overlay, totalAdded))"
  shows "(\<exists>rsP rs1 rs2.
        seed_apply_all (initial_state base)
          (seedPropUnseen (build_indices (formulaToRdfjsStore base)) (initial_state base)) = Inr rsP
      \<and> seed_apply_all rsP
          (seedTypeUnseen (build_indices (formulaToRdfjsStore base)) (initial_state base) rsP) = Inr rs1
      \<and> seed (build_indices (formulaToRdfjsStore base)) (initial_state base) = Inr rs1
      \<and> outer_loop ev (build_indices (formulaToRdfjsStore base)) rules (rs1, 0)
          = Some (Inr (rs2, totalAdded))
      \<and> (\<forall>s \<in> set (seedPropUnseen (build_indices (formulaToRdfjsStore base)) (initial_state base))
              \<union> set (seedTypeUnseen (build_indices (formulaToRdfjsStore base)) (initial_state base) rsP).
            seed_written rs1 s \<and> seed_written rs2 s
            \<and> overlay_statement (seed_quad s) = Inr (overlay_of (seed_quad s))
            \<and> overlay_of (seed_quad s) \<in> set overlay)
      \<and> totalAdded + length (seen rs1) = length (seen rs2))
    \<and> (\<exists>ev' rules' base' overlay' totalAdded'.
          inferUntilStable ev' rules' base' = Some (Inr (overlay', totalAdded'))
          \<and> totalAdded' < length overlay')"
proof
  let ?idx = "build_indices (formulaToRdfjsStore base)"
  let ?rs0 = "initial_state base"
  from inferUntilStable_Inr[OF assms] obtain rs1 rs2 where
    s: "seed ?idx ?rs0 = Inr rs1" and
    o: "outer_loop ev ?idx rules (rs1, 0) = Some (Inr (rs2, totalAdded))" and
    ec: "each overlay_statement (overlayStore rs2) = Inr (map overlay_of (overlayStore rs2))" and
    v: "overlay = foldl graph_add [] (map overlay_of (overlayStore rs2))"
    by blast
  from seed_Inr[OF s] obtain rsP where
    p: "seed_apply_all ?rs0 (seedPropUnseen ?idx ?rs0) = Inr rsP" and
    t: "seed_apply_all rsP (seedTypeUnseen ?idx ?rs0 rsP) = Inr rs1"
    by blast
  from outer_loop_run_ok[OF o] have
    g: "grows rs1 rs2" and c: "totalAdded + length (seen rs1) = length (seen rs2)"
    by (simp_all add: run_ok_def)
  have w: "seed_written rs1 x \<and> seed_written rs2 x
      \<and> overlay_statement (seed_quad x) = Inr (overlay_of (seed_quad x))
      \<and> overlay_of (seed_quad x) \<in> set overlay"
    if "x \<in> set (seedPropUnseen ?idx ?rs0) \<union> set (seedTypeUnseen ?idx ?rs0 rsP)" for x
  proof -
    have "seed_written rs1 x"
    proof (cases "x \<in> set (seedPropUnseen ?idx ?rs0)")
      case True
      then have "seed_written rsP x" using seed_apply_all_written[OF p] by simp
      then show ?thesis using seed_written_grows[OF seed_apply_all_grows[OF t]] by simp
    next
      case False
      then have "x \<in> set (seedTypeUnseen ?idx ?rs0 rsP)" using that by simp
      then show ?thesis using seed_apply_all_written[OF t] by simp
    qed
    moreover from this have "seed_written rs2 x" using seed_written_grows[OF g] by simp
    moreover from this have "overlay_statement (seed_quad x) = Inr (overlay_of (seed_quad x))
      \<and> overlay_of (seed_quad x) \<in> set overlay"
      using seed_written_overlay[OF _ ec v] by simp
    ultimately show ?thesis by simp
  qed
  show "\<exists>rsP rs1 rs2.
        seed_apply_all ?rs0 (seedPropUnseen ?idx ?rs0) = Inr rsP
      \<and> seed_apply_all rsP (seedTypeUnseen ?idx ?rs0 rsP) = Inr rs1
      \<and> seed ?idx ?rs0 = Inr rs1
      \<and> outer_loop ev ?idx rules (rs1, 0) = Some (Inr (rs2, totalAdded))
      \<and> (\<forall>s \<in> set (seedPropUnseen ?idx ?rs0) \<union> set (seedTypeUnseen ?idx ?rs0 rsP).
            seed_written rs1 s \<and> seed_written rs2 s
            \<and> overlay_statement (seed_quad s) = Inr (overlay_of (seed_quad s))
            \<and> overlay_of (seed_quad s) \<in> set overlay)
      \<and> totalAdded + length (seen rs1) = length (seen rs2)"
    using p t s o w c by blast
next
  have "(0::nat) < length [example_lift]" by simp
  with example_silent_run
  show "\<exists>ev' rules' base' overlay' totalAdded'.
          inferUntilStable ev' rules' base' = Some (Inr (overlay', totalAdded'))
          \<and> totalAdded' < length overlay'"
    by blast
qed

text \<open>The small example with no rules: one statement in the overlay, none counted.\<close>

lemma example_seed_lists:
  "seedPropUnseen (build_indices (formulaToRdfjsStore example_base)) (initial_state example_base) = []"
  "seedTypeUnseen (build_indices (formulaToRdfjsStore example_base)) (initial_state example_base)
     (initial_state example_base) = [example_lift]"
  by code_simp+

theorem seed_lifts_not_counted_witness:
  "inferUntilStable silent_evaluator [] example_base = Some (Inr ([example_lift], 0))
   \<and> seedPropUnseen (build_indices (formulaToRdfjsStore example_base))
        (initial_state example_base) = []
   \<and> seedTypeUnseen (build_indices (formulaToRdfjsStore example_base))
        (initial_state example_base) (initial_state example_base) = [example_lift]
   \<and> overlay_of (seed_quad example_lift) \<in> set [example_lift]
   \<and> (0::nat) < length [example_lift]"
proof -
  let ?idx = "build_indices (formulaToRdfjsStore example_base)"
  let ?rs0 = "initial_state example_base"
  from seed_lifts_not_counted[OF example_silent_run] obtain rsP rs1 rs2 where
    p: "seed_apply_all ?rs0 (seedPropUnseen ?idx ?rs0) = Inr rsP" and
    w: "\<forall>s \<in> set (seedPropUnseen ?idx ?rs0) \<union> set (seedTypeUnseen ?idx ?rs0 rsP).
          seed_written rs1 s \<and> seed_written rs2 s
          \<and> overlay_statement (seed_quad s) = Inr (overlay_of (seed_quad s))
          \<and> overlay_of (seed_quad s) \<in> set [example_lift]"
    by blast
  from p have "rsP = ?rs0" by (simp add: example_seed_lists(1))
  then have "example_lift \<in> set (seedPropUnseen ?idx ?rs0) \<union> set (seedTypeUnseen ?idx ?rs0 rsP)"
    by (simp add: example_seed_lists)
  with w have "overlay_of (seed_quad example_lift) \<in> set [example_lift]" by blast
  then show ?thesis using example_silent_run example_seed_lists by simp
qed

section \<open>The novelty gate\<close>

text \<open>An evaluator that returns the statement seeding has already lifted.\<close>

definition repeating_evaluator :: evaluator where
  "repeating_evaluator q store = Inr [example_lift_quad]"

lemma example_repeat_rule:
  "runRuleOnce repeating_evaluator ''domain'' (rdfjsStore example_seeded) = Inr [example_lift]"
  unfolding runRuleOnce_def applyConstructWithComunica_def repeating_evaluator_def
  by code_simp

lemma example_after_rule:
  "after_rule idx example_seeded [example_lift] = Inr (example_seeded, False)"
proof -
  have b: "batch_dedup [example_lift] [] [] = [example_lift]"
    by (simp add: Let_def set_add_def)
  have k: "toNT example_lift \<in> set (seen example_seeded)"
    by (simp add: example_seeded_def)
  have e: "enqueue example_seeded [example_lift] = example_seeded"
    by (simp add: enqueue_def enqueue_one_closed[OF k])
  have "drain_loop idx (example_seeded, False) = Inr (example_seeded, False)"
    by (subst drain_loop.simps) (simp add: example_seeded_def)
  then show ?thesis by (simp add: after_rule_def b e processQueues_def)
qed

lemma example_repeat_run:
  "inferUntilStable repeating_evaluator [''domain''] example_base = Some (Inr ([example_lift], 0))"
  by code_simp

text \<open>
  C1, as claimed, fails on the small example. The expander \<^verbatim>\<open>expandTypesWithClosure\<close>
  produces a candidate whose key is not in the seen index; seeding adds it to the seen
  index and the overlay but routes it to no queue. The rule \<^verbatim>\<open>domain\<close> then derives the
  identical statement: it is in the returned overlay once, and \<^verbatim>\<open>totalAdded\<close> is 0, not 1.
\<close>

theorem enqueue_discipline_counterexample:
  "expandTypesWithClosure (build_indices (formulaToRdfjsStore example_base))
      (filter (\<lambda>s. predicate s = RDF_TYPE) example_base) = [example_lift]
   \<and> toNT example_lift \<notin> set (seen (initial_state example_base))
   \<and> seed (build_indices (formulaToRdfjsStore example_base)) (initial_state example_base)
       = Inr example_seeded
   \<and> toNT example_lift \<in> set (seen example_seeded)
   \<and> example_lift_quad \<in> set (overlayStore example_seeded)
   \<and> workTypes example_seeded = [] \<and> workProps example_seeded = []
   \<and> runRuleOnce repeating_evaluator ''domain'' (rdfjsStore example_seeded) = Inr [example_lift]
   \<and> inferUntilStable repeating_evaluator [''domain''] example_base
       = Some (Inr ([example_lift], 0))"
proof -
  have 1: "expandTypesWithClosure (build_indices (formulaToRdfjsStore example_base))
      (filter (\<lambda>s. predicate s = RDF_TYPE) example_base) = [example_lift]"
    by code_simp
  have 2: "toNT example_lift \<notin> set (seen (initial_state example_base))"
    by code_simp
  have 3: "toNT example_lift \<in> set (seen example_seeded)"
    "example_lift_quad \<in> set (overlayStore example_seeded)"
    "workTypes example_seeded = []" "workProps example_seeded = []"
    by (simp_all add: example_seeded_def)
  show ?thesis using 1 2 3 example_seed example_repeat_rule example_repeat_run
    by (intro conjI)
qed

text \<open>The quad \<^verbatim>\<open>enqueue\<close> writes for a statement.\<close>

definition enqueue_quad :: "statement \<Rightarrow> quad" where
  "enqueue_quad s = \<lparr>q_subject = toSubject (subject s), q_predicate = predicate s,
                      q_object = toObject (object s), q_graph = None\<rparr>"

lemma selectUnseen_loop_inv:
  assumes "toNT ` set uniq \<subseteq> set batchSet - set seenNT" "distinct (map toNT uniq)"
  shows "toNT ` set (selectUnseen_loop stmts seenNT batchSet uniq) \<inter> set seenNT = {}
         \<and> distinct (map toNT (selectUnseen_loop stmts seenNT batchSet uniq))"
  using assms
proof (induction stmts arbitrary: batchSet uniq)
  case Nil
  then show ?case by auto
next
  case (Cons s stmts)
  show ?case
  proof (cases "toNT s \<in> set batchSet")
    case True
    then show ?thesis using Cons.IH[OF Cons.prems] by simp
  next
    case False
    show ?thesis
    proof (cases "toNT s \<in> set seenNT")
      case True
      have "toNT ` set uniq \<subseteq> set (set_add batchSet (toNT s)) - set seenNT"
        using Cons.prems(1) by (auto simp: set_set_add)
      from Cons.IH[OF this Cons.prems(2)] show ?thesis using False True by (simp add: Let_def)
    next
      case notseen: False
      have a: "toNT ` set (uniq @ [s]) \<subseteq> set (set_add batchSet (toNT s)) - set seenNT"
        using Cons.prems(1) notseen by (auto simp: set_set_add)
      have b: "distinct (map toNT (uniq @ [s]))"
        using Cons.prems False by auto
      from Cons.IH[OF a b] show ?thesis using False notseen by (simp add: Let_def)
    qed
  qed
qed

lemma selectUnseen_unseen:
  "toNT ` set (selectUnseen stmts seenNT) \<inter> set seenNT = {}
   \<and> distinct (map toNT (selectUnseen stmts seenNT))"
  unfolding selectUnseen_def by (rule selectUnseen_loop_inv) simp_all

lemma selectUnseen_loop_complete:
  assumes "set batchSet \<subseteq> set seenNT \<union> toNT ` set uniq"
  shows "toNT ` set stmts \<union> toNT ` set uniq
         \<subseteq> set seenNT \<union> toNT ` set (selectUnseen_loop stmts seenNT batchSet uniq)"
  using assms
proof (induction stmts arbitrary: batchSet uniq)
  case Nil
  show ?case by auto
next
  case (Cons s stmts)
  show ?case
  proof (cases "toNT s \<in> set batchSet")
    case True
    then have "toNT s \<in> set seenNT \<union> toNT ` set uniq" using Cons.prems by blast
    then show ?thesis using Cons.IH[OF Cons.prems] True by auto
  next
    case False
    show ?thesis
    proof (cases "toNT s \<in> set seenNT")
      case True
      have "set (set_add batchSet (toNT s)) \<subseteq> set seenNT \<union> toNT ` set uniq"
        using Cons.prems True by (auto simp: set_set_add)
      from Cons.IH[OF this] show ?thesis using False True by (auto simp: Let_def)
    next
      case notseen: False
      have "set (set_add batchSet (toNT s)) \<subseteq> set seenNT \<union> toNT ` set (uniq @ [s])"
        using Cons.prems by (auto simp: set_set_add)
      from Cons.IH[OF this] show ?thesis using False notseen by (auto simp: Let_def)
    qed
  qed
qed

lemma selectUnseen_complete:
  "toNT ` set stmts \<subseteq> set seenNT \<union> toNT ` set (selectUnseen stmts seenNT)"
  using selectUnseen_loop_complete[of "[]" seenNT "[]" stmts] by (simp add: selectUnseen_def)

lemma selectUnseen_loop_subset:
  "set (selectUnseen_loop stmts seenNT batchSet uniq) \<subseteq> set uniq \<union> set stmts"
proof (induction stmts arbitrary: batchSet uniq)
  case Nil
  show ?case by simp
next
  case (Cons s stmts)
  have a: "set (selectUnseen_loop stmts seenNT batchSet uniq) \<subseteq> set uniq \<union> set (s # stmts)" for batchSet
    using Cons.IH[of batchSet uniq] by auto
  have b: "set (selectUnseen_loop stmts seenNT batchSet (uniq @ [s])) \<subseteq> set uniq \<union> set (s # stmts)" for batchSet
    using Cons.IH[of batchSet "uniq @ [s]"] by auto
  show ?case using a b by (simp add: Let_def)
qed

lemma selectUnseen_subset: "set (selectUnseen stmts seenNT) \<subseteq> set stmts"
  using selectUnseen_loop_subset[of stmts seenNT "[]" "[]"] by (simp add: selectUnseen_def)



lemma distinct_foldl_set_add: "distinct xs \<Longrightarrow> distinct (foldl set_add xs ys)"
  by (induction ys arbitrary: xs) (auto simp: set_add_def)

lemma initial_state_distinct: "distinct (seen (initial_state base))"
  by (simp add: initial_state_def distinct_foldl_set_add)

lemma grows_card:
  assumes "grows rs rs'" "n + length (seen rs) = length (seen rs')"
  shows "n = card (set (seen rs') - set (seen rs))"
proof -
  from assms(1) obtain ks where ks: "seen rs' = seen rs @ ks" "distinct ks"
      "set ks \<inter> set (seen rs) = {}"
    unfolding grows_def by blast
  have "set (seen rs') - set (seen rs) = set ks" using ks by auto
  then have "card (set (seen rs') - set (seen rs)) = length ks"
    using ks(2) by (simp add: distinct_card)
  then show ?thesis using assms(2) ks(1) by simp
qed

text \<open>
  C1, amended. A candidate given to \<^verbatim>\<open>enqueue\<close> whose key is in the seen index changes
  nothing; one whose key is not is appended to the seen index, written to the overlay
  store, the shared store and the base graph, and routed to the type queue or the
  property queue by its predicate. Seed lifts pass the same test of the seen index:
  \<^verbatim>\<open>selectUnseen\<close> keeps candidates only, none with a seen key, none twice, and one for
  every unseen key among the candidates. In a run that completes, every seed lift is
  written to the seen index, the overlay store, the shared store and the base graph, and
  the queues are empty after seeding: seed lifts are routed to no queue. The seen index
  holds no key twice, the returned overlay holds no statement twice, and \<^verbatim>\<open>totalAdded\<close>
  is the number of distinct keys added after seeding, none of which is the key of a seed
  lift.
\<close>

theorem novelty_gate:
  "(toNT s \<in> set (seen rs) \<longrightarrow> enqueue_one rs s = rs)
   \<and> (toNT s \<notin> set (seen rs) \<longrightarrow>
        seen (enqueue_one rs s) = seen rs @ [toNT s]
        \<and> enqueue_quad s \<in> set (overlayStore (enqueue_one rs s))
        \<and> enqueue_quad s \<in> set (rdfjsStore (enqueue_one rs s))
        \<and> st (subject s) (predicate s) (object s) \<in> set (baseGraph (enqueue_one rs s))
        \<and> workTypes (enqueue_one rs s)
            = (if predicate s = RDF_TYPE then workTypes rs @ [s] else workTypes rs)
        \<and> workProps (enqueue_one rs s)
            = (if predicate s = RDF_TYPE then workProps rs else workProps rs @ [s]))
   \<and> set (selectUnseen stmts seenNT) \<subseteq> set stmts
   \<and> toNT ` set (selectUnseen stmts seenNT) \<inter> set seenNT = {}
   \<and> distinct (map toNT (selectUnseen stmts seenNT))
   \<and> toNT ` set stmts \<subseteq> set seenNT \<union> toNT ` set (selectUnseen stmts seenNT)
   \<and> (inferUntilStable ev rules base = Some (Inr (overlay, totalAdded)) \<longrightarrow>
        (\<exists>rsP rs1 rs2.
            seed_apply_all (initial_state base)
              (seedPropUnseen (build_indices (formulaToRdfjsStore base)) (initial_state base))
              = Inr rsP
          \<and> seed_apply_all rsP
              (seedTypeUnseen (build_indices (formulaToRdfjsStore base)) (initial_state base) rsP)
              = Inr rs1
          \<and> seed (build_indices (formulaToRdfjsStore base)) (initial_state base) = Inr rs1
          \<and> (\<forall>x \<in> set (seedPropUnseen (build_indices (formulaToRdfjsStore base))
                          (initial_state base))
                   \<union> set (seedTypeUnseen (build_indices (formulaToRdfjsStore base))
                          (initial_state base) rsP).
                seed_written rs1 x \<and> toNT x \<notin> set (seen rs2) - set (seen rs1))
          \<and> workTypes rs1 = [] \<and> workProps rs1 = []
          \<and> outer_loop ev (build_indices (formulaToRdfjsStore base)) rules (rs1, 0)
              = Some (Inr (rs2, totalAdded))
          \<and> distinct (seen rs2)
          \<and> distinct overlay
          \<and> totalAdded = card (set (seen rs2) - set (seen rs1))))"
proof (intro conjI impI)
  assume "toNT s \<in> set (seen rs)"
  then show "enqueue_one rs s = rs" by (rule enqueue_one_closed)
next
  assume n: "toNT s \<notin> set (seen rs)"
  show "seen (enqueue_one rs s) = seen rs @ [toNT s]"
    using n by (simp add: enqueue_one_def Let_def set_add_def)
  show "enqueue_quad s \<in> set (overlayStore (enqueue_one rs s))"
    using n by (simp add: enqueue_one_def Let_def addQuad_def enqueue_quad_def)
  show "enqueue_quad s \<in> set (rdfjsStore (enqueue_one rs s))"
    using n by (simp add: enqueue_one_def Let_def addQuad_def enqueue_quad_def)
  show "st (subject s) (predicate s) (object s) \<in> set (baseGraph (enqueue_one rs s))"
    using n by (simp add: enqueue_one_def Let_def graph_add_def)
  show "workTypes (enqueue_one rs s)
            = (if predicate s = RDF_TYPE then workTypes rs @ [s] else workTypes rs)"
    using n by (simp add: enqueue_one_def Let_def)
  show "workProps (enqueue_one rs s)
            = (if predicate s = RDF_TYPE then workProps rs else workProps rs @ [s])"
    using n by (simp add: enqueue_one_def Let_def)
next
  show "set (selectUnseen stmts seenNT) \<subseteq> set stmts" by (rule selectUnseen_subset)
  show "toNT ` set (selectUnseen stmts seenNT) \<inter> set seenNT = {}"
    using selectUnseen_unseen by blast
  show "distinct (map toNT (selectUnseen stmts seenNT))"
    using selectUnseen_unseen by blast
  show "toNT ` set stmts \<subseteq> set seenNT \<union> toNT ` set (selectUnseen stmts seenNT)"
    by (rule selectUnseen_complete)
next
  let ?idx = "build_indices (formulaToRdfjsStore base)"
  let ?rs0 = "initial_state base"
  assume "inferUntilStable ev rules base = Some (Inr (overlay, totalAdded))"
  from inferUntilStable_Inr[OF this] obtain rs1 rs2 where
    s: "seed ?idx ?rs0 = Inr rs1" and
    o: "outer_loop ev ?idx rules (rs1, 0) = Some (Inr (rs2, totalAdded))" and
    v: "overlay = foldl graph_add [] (map overlay_of (overlayStore rs2))"
    by blast
  from seed_Inr[OF s] obtain rsP where
    p: "seed_apply_all ?rs0 (seedPropUnseen ?idx ?rs0) = Inr rsP" and
    t: "seed_apply_all rsP (seedTypeUnseen ?idx ?rs0 rsP) = Inr rs1"
    by blast
  from outer_loop_run_ok[OF o] have
    g: "grows rs1 rs2" and c: "totalAdded + length (seen rs1) = length (seen rs2)"
    by (simp_all add: run_ok_def)
  have q: "workTypes rs1 = [] \<and> workProps rs1 = []"
    using seed_queues[OF s] by (simp add: initial_state_def)
  have w: "seed_written rs1 x \<and> toNT x \<notin> set (seen rs2) - set (seen rs1)"
    if "x \<in> set (seedPropUnseen ?idx ?rs0) \<union> set (seedTypeUnseen ?idx ?rs0 rsP)" for x
  proof -
    have "seed_written rs1 x"
    proof (cases "x \<in> set (seedPropUnseen ?idx ?rs0)")
      case True
      then have "seed_written rsP x" using seed_apply_all_written[OF p] by simp
      then show ?thesis using seed_written_grows[OF seed_apply_all_grows[OF t]] by simp
    next
      case False
      then have "x \<in> set (seedTypeUnseen ?idx ?rs0 rsP)" using that by simp
      then show ?thesis using seed_apply_all_written[OF t] by simp
    qed
    then show ?thesis by (simp add: seed_written_def)
  qed
  have "distinct (seen rs1)"
    using grows_distinct[OF seed_grows[OF s] initial_state_distinct] .
  then have d: "distinct (seen rs2)" using grows_distinct[OF g] by simp
  have dv: "distinct overlay" unfolding v by (rule distinct_foldl_graph_add) simp
  have "totalAdded = card (set (seen rs2) - set (seen rs1))" using g c by (rule grows_card)
  then show "\<exists>rsP rs1 rs2.
            seed_apply_all ?rs0 (seedPropUnseen ?idx ?rs0) = Inr rsP
          \<and> seed_apply_all rsP (seedTypeUnseen ?idx ?rs0 rsP) = Inr rs1
          \<and> seed ?idx ?rs0 = Inr rs1
          \<and> (\<forall>x \<in> set (seedPropUnseen ?idx ?rs0) \<union> set (seedTypeUnseen ?idx ?rs0 rsP).
                seed_written rs1 x \<and> toNT x \<notin> set (seen rs2) - set (seen rs1))
          \<and> workTypes rs1 = [] \<and> workProps rs1 = []
          \<and> outer_loop ev ?idx rules (rs1, 0) = Some (Inr (rs2, totalAdded))
          \<and> distinct (seen rs2)
          \<and> distinct overlay
          \<and> totalAdded = card (set (seen rs2) - set (seen rs1))"
    using p t s w q o d dv by blast
qed

text \<open>The small example: the gate closed and open, and the run in which a rule repeats
  the seed lift. The lift is written by seeding and the rule's copy is not counted.\<close>

theorem novelty_gate_witness:
  "toNT example_lift \<in> set (seen example_seeded)
   \<and> enqueue_one example_seeded example_lift = example_seeded
   \<and> toNT example_lift \<notin> set (seen (initial_state example_base))
   \<and> workTypes (enqueue_one (initial_state example_base) example_lift) = [example_lift]
   \<and> enqueue_quad example_lift
        \<in> set (overlayStore (enqueue_one (initial_state example_base) example_lift))
   \<and> inferUntilStable repeating_evaluator [''domain''] example_base
        = Some (Inr ([example_lift], 0))
   \<and> example_lift \<in> set (seedTypeUnseen (build_indices (formulaToRdfjsStore example_base))
                           (initial_state example_base) (initial_state example_base))
   \<and> seed_written example_seeded example_lift
   \<and> (\<exists>rs2. outer_loop repeating_evaluator (build_indices (formulaToRdfjsStore example_base))
                [''domain''] (example_seeded, 0) = Some (Inr (rs2, 0))
            \<and> distinct (seen rs2)
            \<and> toNT example_lift \<notin> set (seen rs2) - set (seen example_seeded)
            \<and> 0 = card (set (seen rs2) - set (seen example_seeded)))"
proof -
  let ?idx = "build_indices (formulaToRdfjsStore example_base)"
  let ?rs0 = "initial_state example_base"
  have k: "toNT example_lift \<in> set (seen example_seeded)"
    by (simp add: example_seeded_def)
  have n: "toNT example_lift \<notin> set (seen ?rs0)"
    by code_simp
  have t: "predicate example_lift = RDF_TYPE" by (simp add: example_lift_def st_def)
  have w: "workTypes ?rs0 = []" by (simp add: initial_state_def)
  note g1 = novelty_gate[of example_lift example_seeded "[]" "[]" repeating_evaluator
      "[''domain'']" example_base "[example_lift]" 0]
  note g2 = novelty_gate[of example_lift ?rs0 "[]" "[]"
      repeating_evaluator "[''domain'']" example_base "[example_lift]" 0]
  note open_gate = g2[THEN conjunct2, THEN conjunct1, rule_format, OF n]
  note run = g1[THEN conjunct2, THEN conjunct2, THEN conjunct2, THEN conjunct2,
      THEN conjunct2, THEN conjunct2, rule_format, OF example_repeat_run]
  have 1: "enqueue_one example_seeded example_lift = example_seeded"
    using g1[THEN conjunct1, rule_format, OF k] .
  have 2: "workTypes (enqueue_one ?rs0 example_lift) = [example_lift]"
    using open_gate t w by simp
  have 3: "enqueue_quad example_lift \<in> set (overlayStore (enqueue_one ?rs0 example_lift))"
    using open_gate by simp
  from run obtain rsP rs1 rs2 where
    r: "seed_apply_all ?rs0 (seedPropUnseen ?idx ?rs0) = Inr rsP"
       "seed ?idx ?rs0 = Inr rs1"
       "\<forall>x \<in> set (seedPropUnseen ?idx ?rs0) \<union> set (seedTypeUnseen ?idx ?rs0 rsP).
           seed_written rs1 x \<and> toNT x \<notin> set (seen rs2) - set (seen rs1)"
       "outer_loop repeating_evaluator ?idx [''domain''] (rs1, 0) = Some (Inr (rs2, 0))"
       "distinct (seen rs2)" "0 = card (set (seen rs2) - set (seen rs1))"
    by blast
  from r(1) have P: "rsP = ?rs0" by (simp add: example_seed_lists(1))
  from r(2) have S: "rs1 = example_seeded" by (simp add: example_seed)
  have m: "example_lift \<in> set (seedTypeUnseen ?idx ?rs0 ?rs0)"
    by (simp add: example_seed_lists(2))
  then have 5: "seed_written example_seeded example_lift"
    "toNT example_lift \<notin> set (seen rs2) - set (seen example_seeded)"
    using r(3) unfolding P S by blast+
  have 4: "\<exists>rs2. outer_loop repeating_evaluator ?idx [''domain''] (example_seeded, 0)
                 = Some (Inr (rs2, 0))
            \<and> distinct (seen rs2)
            \<and> toNT example_lift \<notin> set (seen rs2) - set (seen example_seeded)
            \<and> 0 = card (set (seen rs2) - set (seen example_seeded))"
    using r(4,5,6) 5(2) unfolding S by blast
  show ?thesis using k 1 n 2 3 example_repeat_run m 5(1) 4 by (intro conjI)
qed


section \<open>Running the algorithm twice\<close>





text \<open>
  A second input on which a second run is not idle, with an overlay that leaves the
  hierarchy alone: \<open>p\<close> is a subproperty of \<^verbatim>\<open>rdf:type\<close>, \<open>A\<close> a subclass of \<open>B\<close>, and
  \<open>x p A\<close>. Seeding lifts \<open>x p A\<close> to \<open>x type A\<close> without routing it, and its type lifts
  were computed from the input alone, so \<open>x type B\<close> is left to the second run.
\<close>

definition typing_base :: "statement list" where
  "typing_base =
     [st (NamedNode ''urn:p'') RDFS_SP (NamedNode RDF_TYPE),
      st (NamedNode ''urn:A'') RDFS_SC (NamedNode ''urn:B''),
      st (NamedNode ''urn:x'') ''urn:p'' (NamedNode ''urn:A'')]"

definition typing_overlay1 :: "statement list" where
  "typing_overlay1 = [st (NamedNode ''urn:x'') RDF_TYPE (NamedNode ''urn:A'')]"

definition typing_overlay2 :: "statement list" where
  "typing_overlay2 = [st (NamedNode ''urn:x'') RDF_TYPE (NamedNode ''urn:B'')]"

lemma typing_second_run:
  "inferUntilStable silent_evaluator [] typing_base = Some (Inr (typing_overlay1, 0))
   \<and> inferUntilStable silent_evaluator [] (typing_base @ typing_overlay1)
       = Some (Inr (typing_overlay2, 0))"
  by (rule conjI; code_simp)












section \<open>Invariants of a run\<close>












section \<open>Closure lifts are complete\<close>




































section \<open>The second run\<close>



















subsection \<open>Terms that convert without loss\<close>





text \<open>The answers of the evaluator, for the rules of the list: named nodes and blank
  nodes with a label. (\<^verbatim>\<open>applyInverseAndSymmetric\<close> and \<^verbatim>\<open>applyDomainRange\<close> move the
  object of a statement to subject position, where \<^verbatim>\<open>toSubject\<close> writes a blank node
  for a literal.)\<close>

definition resource :: "node \<Rightarrow> bool" where
  "resource n = (case n of NamedNode v \<Rightarrow> True | BlankNode b \<Rightarrow> b \<noteq> [] | Literal v l d \<Rightarrow> False)"


definition resource_statement :: "statement \<Rightarrow> bool" where
  "resource_statement s = (resource (subject s) \<and> resource (object s))"

















subsection \<open>The overlay mirrors what the run added\<close>















text \<open>The expanders build their statements from the terms of the batch and from named
  nodes.\<close>

lemma resource_st: "resource a \<Longrightarrow> resource b \<Longrightarrow> resource_statement (st a p b)"
  by (simp add: resource_statement_def st_def)

lemma resource_NamedNode: "resource (NamedNode v)"
  by (simp add: resource_def)































text \<open>The conditions on the input are needed as well. With a language tag that is
  not in lower case, the store holds the lifted literal with the tag in lower case, the
  seen index its key as written: the second run finds the key of the lift missing and
  lifts again. A typed literal comes back from the overlay as a plain one.\<close>

definition tagged_base :: "statement list" where
  "tagged_base =
     [st (NamedNode ''urn:p'') RDFS_SP (NamedNode ''urn:q''),
      st (NamedNode ''urn:x'') ''urn:p'' (Literal ''hi'' ''en-US'' RDF_LANGSTRING)]"

definition tagged_overlay :: "statement list" where
  "tagged_overlay = [st (NamedNode ''urn:x'') ''urn:q'' (Literal ''hi'' ''en-us'' RDF_LANGSTRING)]"

lemma tagged_second_run:
  "inferUntilStable silent_evaluator [] tagged_base = Some (Inr (tagged_overlay, 0))
   \<and> inferUntilStable silent_evaluator [] (tagged_base @ tagged_overlay)
       = Some (Inr (tagged_overlay, 0))"
  by (rule conjI; code_simp)

definition typed_base :: "statement list" where
  "typed_base =
     [st (NamedNode ''urn:p'') RDFS_SP (NamedNode ''urn:q''),
      st (NamedNode ''urn:x'') ''urn:p''
         (Literal ''5'' [] ''http://www.w3.org/2001/XMLSchema#integer'')]"

definition typed_overlay :: "statement list" where
  "typed_overlay = [st (NamedNode ''urn:x'') ''urn:q'' (Literal ''5'' [] XSD_STRING)]"

lemma typed_second_run:
  "inferUntilStable silent_evaluator [] typed_base = Some (Inr (typed_overlay, 0))
   \<and> inferUntilStable silent_evaluator [] (typed_base @ typed_overlay)
       = Some (Inr (typed_overlay, 0))"
  by (rule conjI; code_simp)

end
